theory Spec2Isabelle
  imports Main
begin

section \<open>Characters and Python string primitives\<close>

text \<open>
  The scripts work on Python \<open>str\<close> values. A \<^typ>\<open>char\<close> of the model is one
  element of a \<open>str\<close>, a code point below 256; encoding and decoding of file contents
  are not modelled (for a file that cannot be decoded \<open>read_text\<close> raises, before
  anything is written to it).

  \<open>is_word\<close> is the class \<open>\w\<close> of the \<open>re\<close> module on \<open>str\<close> patterns
  (alphanumeric code points and the underscore), \<open>is_space\<close> is the class \<open>\s\<close>,
  which is also what \<open>str.strip\<close> removes.
\<close>

definition is_word :: "char \<Rightarrow> bool" where
  "is_word c =
     (let n = (of_char c :: nat)
      in (48 \<le> n \<and> n \<le> 57) \<or> (65 \<le> n \<and> n \<le> 90) \<or> n = 95 \<or> (97 \<le> n \<and> n \<le> 122)
         \<or> n = 170 \<or> n = 178 \<or> n = 179 \<or> n = 181 \<or> n = 185 \<or> n = 186
         \<or> (188 \<le> n \<and> n \<le> 190) \<or> (192 \<le> n \<and> n \<le> 214)
         \<or> (216 \<le> n \<and> n \<le> 246) \<or> (248 \<le> n \<and> n \<le> 255))"

definition is_space :: "char \<Rightarrow> bool" where
  "is_space c =
     (let n = (of_char c :: nat)
      in (9 \<le> n \<and> n \<le> 13) \<or> (28 \<le> n \<and> n \<le> 32) \<or> n = 133 \<or> n = 160)"

text \<open>The explicit classes \<open>[a-zA-Z_]\<close> and \<open>[a-zA-Z0-9_]\<close> of the property-access pattern.\<close>

definition is_ident_start :: "char \<Rightarrow> bool" where
  "is_ident_start c =
     (let n = (of_char c :: nat)
      in (97 \<le> n \<and> n \<le> 122) \<or> (65 \<le> n \<and> n \<le> 90) \<or> n = 95)"

definition is_ident_char :: "char \<Rightarrow> bool" where
  "is_ident_char c =
     (let n = (of_char c :: nat)
      in (97 \<le> n \<and> n \<le> 122) \<or> (65 \<le> n \<and> n \<le> 90) \<or> (48 \<le> n \<and> n \<le> 57) \<or> n = 95)"

text \<open>The character at a position of the subject, \<open>None\<close> at either end of the string.\<close>

definition next_char :: "string \<Rightarrow> char option" where
  "next_char s = (case s of [] \<Rightarrow> None | c # _ \<Rightarrow> Some c)"

fun word_at :: "char option \<Rightarrow> bool" where
  "word_at None = False"
| "word_at (Some c) = is_word c"

text \<open>
  \<open>\b\<close>: the position between \<open>prev\<close> and \<open>nxt\<close> is a boundary when exactly one of
  the two is a word character; outside the string counts as a non-word character.
\<close>

definition boundary :: "char option \<Rightarrow> char option \<Rightarrow> bool" where
  "boundary prev nxt = (word_at prev \<noteq> word_at nxt)"

text \<open>\<open>s.startswith(p)\<close>, and the substring test \<open>p in s\<close>.\<close>

definition starts_with :: "string \<Rightarrow> string \<Rightarrow> bool" where
  "starts_with p s = (take (length p) s = p)"

fun contains :: "string \<Rightarrow> string \<Rightarrow> bool" where
  "contains p [] = (p = [])"
| "contains p (c # cs) = (starts_with p (c # cs) \<or> contains p cs)"

section \<open>Substitution of an identifier: \<open>re.sub(rf'\b{old}\b', new, line)\<close>\<close>

text \<open>
  \<open>fix-ts-errors.py\<close> and \<open>fix-unused-vars.py\<close> substitute the pattern
  \<open>\b{old}\b\<close>; \<open>fix-all-refs.py\<close> and \<open>fix-ts-errors-comprehensive.py\<close>
  substitute \<open>\b{old}\b(?!:)\<close>. The flag \<open>guard\<close> says whether the negative
  lookahead \<open>(?!:)\<close> is part of the pattern. The name \<open>old\<close> comes out of a group
  \<open>(\w+)\<close> of the diagnostic pattern, so it is a literal in the pattern and the
  replacement is a literal in the template.

  \<open>match_word\<close> tries the pattern at one position: \<open>prev\<close> is the character before
  the position, \<open>s\<close> the text from the position on. It returns the text after the
  match.
\<close>

definition match_word :: "bool \<Rightarrow> string \<Rightarrow> char option \<Rightarrow> string \<Rightarrow> string option" where
  "match_word guard old prev s =
     (if boundary prev (next_char s) \<and> starts_with old s
      then (let rest = drop (length old) s;
                back = (if old = [] then prev else Some (last old))
            in if boundary back (next_char rest)
                  \<and> (guard \<longrightarrow> next_char rest \<noteq> Some CHR '':'')
               then Some rest else None)
      else None)"

text \<open>
  \<open>re.sub\<close> scans from the left: where the pattern matches, the replacement is
  emitted and the scan goes on after the match; elsewhere the character is copied.
  An empty match (only possible for an empty \<open>old\<close>) emits the replacement and then
  copies the next character.
\<close>

function re_sub_word :: "bool \<Rightarrow> string \<Rightarrow> string \<Rightarrow> char option \<Rightarrow> string \<Rightarrow> string" where
  "re_sub_word guard old new prev s =
     (case match_word guard old prev s of
        Some rest \<Rightarrow>
          (if old = []
           then (case s of [] \<Rightarrow> new
                 | c # cs \<Rightarrow> new @ c # re_sub_word guard old new (Some c) cs)
           else new @ re_sub_word guard old new (Some (last old)) rest)
      | None \<Rightarrow>
          (case s of [] \<Rightarrow> []
           | c # cs \<Rightarrow> c # re_sub_word guard old new (Some c) cs))"
  by pat_completeness auto
termination
proof (relation "measure (\<lambda>(guard, old, new, prev, s). length s)")
  show "wf (measure (\<lambda>(guard, old, new, prev, s). length s))" by simp
next
  fix guard :: bool and old new :: string and prev :: "char option" and s rest :: string
  assume m: "match_word guard old prev s = Some rest" and ne: "old \<noteq> []"
  from m have "starts_with old s" and r: "rest = drop (length old) s"
    by (auto simp: match_word_def Let_def split: if_splits)
  then have "s \<noteq> []" using ne by (auto simp: starts_with_def)
  then show "((guard, old, new, Some (last old), rest), (guard, old, new, prev, s))
               \<in> measure (\<lambda>(guard, old, new, prev, s). length s)"
    using ne r by simp
qed auto

declare re_sub_word.simps [simp del]

text \<open>The line transforms of the four scripts that rename an identifier.\<close>

definition ts_errors_line :: "string \<Rightarrow> string \<Rightarrow> string \<Rightarrow> string" where
  \<comment> \<open>\<open>fix-ts-errors.py\<close>, line 48\<close>
  "ts_errors_line old_var new_var line = re_sub_word False old_var new_var None line"

definition unused_var_line :: "string \<Rightarrow> string \<Rightarrow> string" where
  \<comment> \<open>\<open>fix-unused-vars.py\<close>, line 41: the replacement is \<open>f'_{var}'\<close>\<close>
  "unused_var_line var line = re_sub_word False var (CHR ''_'' # var) None line"



subsection \<open>The substitution stated on tokens\<close>

text \<open>
  The specification speaks of identifier occurrences at word boundaries. \<open>tokens\<close>
  cuts a line into its maximal runs of word characters and its single non-word
  characters; \<open>rewrite_tokens\<close> is the substitution as the specification words it:
  a token is rewritten when it is the target identifier and (under the guard) no
  \<open>:\<close> follows it immediately, and every other token is kept.
\<close>

function tokens :: "string \<Rightarrow> string list" where
  "tokens [] = []"
| "tokens (c # cs) =
     (if is_word c then (c # takeWhile is_word cs) # tokens (dropWhile is_word cs)
      else [c] # tokens cs)"
  by pat_completeness auto
termination
  by (relation "measure length") (auto simp: less_Suc_eq_le length_dropWhile_le)

fun rewrite_tokens :: "bool \<Rightarrow> string \<Rightarrow> string \<Rightarrow> string list \<Rightarrow> string" where
  "rewrite_tokens guard old new [] = []"
| "rewrite_tokens guard old new (t # ts) =
     (if t = old \<and> (guard \<longrightarrow> next_char (concat ts) \<noteq> Some CHR '':'') then new else t)
       @ rewrite_tokens guard old new ts"


section \<open>Python string operations used by the scripts\<close>

abbreviation LF :: char where "LF \<equiv> CHR 0x0A"
abbreviation CR :: char where "CR \<equiv> CHR 0x0D"

text \<open>\<open>s.split(sep)\<close> and \<open>sep.join(parts)\<close> for a separator of one character.\<close>

fun str_split :: "char \<Rightarrow> string \<Rightarrow> string list" where
  "str_split sep [] = [[]]"
| "str_split sep (c # cs) =
     (if c = sep then [] # str_split sep cs
      else (case str_split sep cs of [] \<Rightarrow> [[c]] | l # ls \<Rightarrow> (c # l) # ls))"

fun str_join :: "char \<Rightarrow> string list \<Rightarrow> string" where
  "str_join sep [] = []"
| "str_join sep [l] = l"
| "str_join sep (l # ls) = l @ sep # str_join sep ls"

text \<open>
  \<open>s.replace(old, new)\<close>: every occurrence of \<open>old\<close>, found from the left without
  overlap; for an empty \<open>old\<close> the replacement goes before every character and at
  the end.
\<close>

function str_replace :: "string \<Rightarrow> string \<Rightarrow> string \<Rightarrow> string" where
  "str_replace old new [] = (if old = [] then new else [])"
| "str_replace old new (c # cs) =
     (if old = [] then new @ c # str_replace old new cs
      else if starts_with old (c # cs)
           then new @ str_replace old new (drop (length old) (c # cs))
           else c # str_replace old new cs)"
  by pat_completeness auto
termination
  by (relation "measure (\<lambda>(old, new, s). length s)") auto

text \<open>\<open>s.rstrip()\<close>, \<open>s.strip()\<close>, \<open>s.endswith(t)\<close>.\<close>

definition rstrip :: "string \<Rightarrow> string" where
  "rstrip s = rev (dropWhile is_space (rev s))"

definition strip :: "string \<Rightarrow> string" where
  "strip s = rstrip (dropWhile is_space s)"

definition ends_with :: "string \<Rightarrow> string \<Rightarrow> bool" where
  "ends_with s t = (length t \<le> length s \<and> drop (length s - length t) s = t)"

section \<open>Files\<close>

text \<open>
  The disk maps a path to the raw text of a regular file. \<open>Path.read_text()\<close> opens
  the file in text mode with universal newlines: \<open>\r\n\<close> and a lone \<open>\r\<close> are read
  as \<open>\n\<close>. \<open>Path.write_text(data)\<close> writes \<open>\n\<close> as the platform's line
  separator; the scripts start \<open>npx\<close> and \<open>npm\<close> without a shell, which is how
  they are started on a POSIX system, where the separator is \<open>\n\<close> and the text is
  written as it is.
\<close>

type_synonym disk = "string \<rightharpoonup> string"

fun universal_newlines :: "string \<Rightarrow> string" where
  "universal_newlines [] = []"
| "universal_newlines [c] = (if c = CR then [LF] else [c])"
| "universal_newlines (c # d # ds) =
     (if c = CR \<and> d = LF then LF # universal_newlines ds
      else if c = CR then LF # universal_newlines (d # ds)
      else c # universal_newlines (d # ds))"

definition read_text :: "string \<Rightarrow> string" where
  "read_text raw = universal_newlines raw"

definition write_text :: "string \<Rightarrow> string" where
  "write_text data = data"

text \<open>The lines of a file as every script loads them: \<open>path.read_text().split('\n')\<close>.\<close>

definition file_lines :: "string \<Rightarrow> string list" where
  "file_lines raw = str_split LF (read_text raw)"

section \<open>\<open>fix-ts-errors.py\<close>\<close>

text \<open>
  The diagnostics arrive parsed and grouped: \<open>files_to_fix\<close> is the list of the
  dictionary's items in insertion order, each a path with its list of
  \<open>(line_num, old_var, new_var)\<close>. The loop over the issues of one file (lines 44 to
  48) updates the list of lines in place.
\<close>

type_synonym rename = "int \<times> string \<times> string"

fun ts_errors_apply :: "string list \<Rightarrow> rename list \<Rightarrow> string list" where
  "ts_errors_apply lines [] = lines"
| "ts_errors_apply lines ((line_num, old_var, new_var) # issues) =
     (let idx = line_num - 1
      in if 0 \<le> idx \<and> idx < int (length lines)
         then ts_errors_apply
                (lines[nat idx := ts_errors_line old_var new_var (lines ! nat idx)]) issues
         else ts_errors_apply lines issues)"

definition ts_errors_new_content :: "string \<Rightarrow> rename list \<Rightarrow> string" where
  "ts_errors_new_content content issues =
     str_join LF (ts_errors_apply (str_split LF content) issues)"

text \<open>
  The body of the loop over the files (lines 35 to 57). The result is the disk and
  whether the file was written (\<open>fixed += 1\<close>). Any exception is swallowed by
  \<open>except: pass\<close>, so the loop goes on to the next file in every case.
\<close>

definition ts_errors_file :: "disk \<Rightarrow> string \<times> rename list \<Rightarrow> disk \<times> bool" where
  "ts_errors_file d item =
     (case item of (file_path, issues) \<Rightarrow>
        (case d file_path of
           None \<Rightarrow> (d, False)
         | Some raw \<Rightarrow>
             (let content = read_text raw;
                  new_content = ts_errors_new_content content issues
              in if new_content \<noteq> content
                 then (d(file_path \<mapsto> write_text new_content), True)
                 else (d, False))))"


text \<open>
  What the script prints after its banner: the number of diagnostics found, one line
  for each file written (the last three components of its path), and the number of
  files written.
\<close>

datatype out_line = Found nat | Ok string | Fixed nat

definition short_path :: "string \<Rightarrow> string" where
  "short_path file_path =
     (let parts = str_split CHR ''/'' file_path
      in str_join CHR ''/'' (drop (length parts - 3) parts))"

fun ts_errors_loop ::
    "disk \<times> out_line list \<times> nat \<Rightarrow> (string \<times> rename list) list \<Rightarrow> disk \<times> out_line list \<times> nat" where
  "ts_errors_loop st [] = st"
| "ts_errors_loop (d, printed, fixed) (item # items) =
     (case ts_errors_file d item of
        (d', True) \<Rightarrow> ts_errors_loop (d', printed @ [Ok (short_path (fst item))], fixed + 1) items
      | (d', False) \<Rightarrow> ts_errors_loop (d', printed, fixed) items)"

definition fix_ts_errors :: "disk \<Rightarrow> (string \<times> rename list) list \<Rightarrow> disk \<times> out_line list" where
  "fix_ts_errors d files_to_fix =
     (case ts_errors_loop (d, [Found (sum_list (map (\<lambda>item. length (snd item)) files_to_fix))], 0)
             files_to_fix of
        (d', printed, fixed) \<Rightarrow> (d', printed @ [Fixed fixed]))"

section \<open>\<open>fix-unused-vars.py\<close>\<close>

fun unused_vars_apply :: "string list \<Rightarrow> (int \<times> string) list \<Rightarrow> string list" where
  "unused_vars_apply lines [] = lines"
| "unused_vars_apply lines ((line_num, var) # issues) =
     (let idx = line_num - 1
      in if 0 \<le> idx \<and> idx < int (length lines)
         then unused_vars_apply (lines[nat idx := unused_var_line var (lines ! nat idx)]) issues
         else unused_vars_apply lines issues)"

text \<open>Lines 30 to 45: the file is written whether or not a line changed.\<close>

definition unused_vars_file :: "disk \<Rightarrow> string \<times> (int \<times> string) list \<Rightarrow> disk \<times> bool" where
  "unused_vars_file d item =
     (case item of (file_path, issues) \<Rightarrow>
        (case d file_path of
           None \<Rightarrow> (d, False)
         | Some raw \<Rightarrow>
             (let lines = str_split LF (read_text raw)
              in (d(file_path \<mapsto> write_text (str_join LF (unused_vars_apply lines issues))),
                  True))))"

section \<open>\<open>fix-batch-7.py\<close> and \<open>fix-massive-batch.py\<close>\<close>

text \<open>
  Both scripts collect \<open>(line_num, old, new)\<close> for each diagnostic and apply the
  changes of a file one after the other with \<open>str.replace\<close>. The state of the loop is
  the list of lines and the flag \<open>modified\<close>.
\<close>

fun batch7_apply ::
    "string list \<times> bool \<Rightarrow> (int \<times> string \<times> string) list \<Rightarrow> string list \<times> bool" where
  "batch7_apply (lines, modified) [] = (lines, modified)"
| "batch7_apply (lines, modified) ((line_num, old, new) # changes) =
     (let idx = line_num - 1
      in if 0 \<le> idx \<and> idx < int (length lines)
         then batch7_apply (lines[nat idx := str_replace old new (lines ! nat idx)], True) changes
         else batch7_apply (lines, modified) changes)"

fun massive_apply ::
    "string list \<times> bool \<Rightarrow> (int \<times> string \<times> string) list \<Rightarrow> string list \<times> bool" where
  "massive_apply (lines, modified) [] = (lines, modified)"
| "massive_apply (lines, modified) ((line_num, old, new) # changes) =
     (let idx = line_num - 1
      in if 0 \<le> idx \<and> idx < int (length lines)
         then (let line = lines ! nat idx
               in if contains old line
                  then massive_apply (lines[nat idx := str_replace old new line], True) changes
                  else massive_apply (lines, modified) changes)
         else massive_apply (lines, modified) changes)"

section \<open>\<open>fix-parentheses.py\<close> and \<open>fix-all-supabase-patterns.py\<close>\<close>

text \<open>
  Both scripts walk over the lines of a file and, at a line that triggers a rule, look
  at the following lines with the same loop:
  \<^verbatim>\<open>j = i + 1
while j < len(lines) and j < i + window:
    if marker(lines[j]):
        lines[j] = edit(lines[j]); modified = True; break
    j += 1\<close>
  \<open>lookahead\<close> is that loop from a given \<open>j\<close>; it returns the lines and whether the
  marker was found.
\<close>

function lookahead ::
    "nat \<Rightarrow> (string \<Rightarrow> bool) \<Rightarrow> (string \<Rightarrow> string) \<Rightarrow> nat \<Rightarrow> nat \<Rightarrow> string list
       \<Rightarrow> string list \<times> bool" where
  "lookahead window marker edit i j lines =
     (if j < length lines \<and> j < i + window
      then (if marker (lines ! j) then (lines[j := edit (lines ! j)], True)
            else lookahead window marker edit i (j + 1) lines)
      else (lines, False))"
  by pat_completeness auto
termination
  by (relation "measure (\<lambda>(window, marker, edit, i, j, lines). length lines - j)") auto

declare lookahead.simps [simp del]

text \<open>
  \<open>fix-parentheses.py\<close>: the trigger is a match of \<open>' as any\)\.(from|rpc)\('\<close>
  anywhere in the line (line 24); the marker is \<open>lines[j].strip().endswith(';')\<close>
  and the edit is \<open>lines[j].rstrip()[:-1] + ');'\<close> (lines 31 to 37).
\<close>

definition paren_trigger :: "string \<Rightarrow> bool" where
  "paren_trigger line = (contains '' as any).from('' line \<or> contains '' as any).rpc('' line)"

definition ends_statement :: "string \<Rightarrow> bool" where
  "ends_statement line = ends_with (strip line) '';''"

definition close_paren :: "string \<Rightarrow> string" where
  "close_paren line = butlast (rstrip line) @ '');''"

definition paren_lookahead :: "nat \<Rightarrow> string list \<Rightarrow> string list \<times> bool" where
  "paren_lookahead i lines = lookahead 20 ends_statement close_paren i (i + 1) lines"

definition paren_step :: "nat \<Rightarrow> string list \<times> bool \<Rightarrow> string list \<times> bool" where
  "paren_step i st =
     (case st of (lines, modified) \<Rightarrow>
        if paren_trigger (lines ! i)
        then (case paren_lookahead i lines of
                (lines', found) \<Rightarrow> (lines', if found then True else modified))
        else (lines, modified))"

text \<open>
  The loop \<open>for i, line in enumerate(lines)\<close>: the list keeps its length, so the
  indices are those of the loaded file, and step \<open>i\<close> sees the edits of the steps
  before it.
\<close>

definition fix_parentheses_lines :: "string list \<Rightarrow> string list \<times> bool" where
  "fix_parentheses_lines lines = fold paren_step [0..<length lines] (lines, False)"

definition fix_parentheses_file :: "disk \<Rightarrow> string \<Rightarrow> disk" where
  "fix_parentheses_file d file_path =
     (case d file_path of
        None \<Rightarrow> d
      | Some raw \<Rightarrow>
          (case fix_parentheses_lines (str_split LF (read_text raw)) of
             (lines, modified) \<Rightarrow>
               if modified then d(file_path \<mapsto> write_text (str_join LF lines)) else d))"

text \<open>
  \<open>fix-all-supabase-patterns.py\<close>, lines 22 to 38. The first rule looks at the next
  line only; the second uses the loop with a window of 10 and tests the line as it was
  when the step began.
\<close>

definition rpc_lookahead :: "nat \<Rightarrow> string list \<Rightarrow> string list \<times> bool" where
  "rpc_lookahead i lines =
     lookahead 10 (\<lambda>l. strip l = ''}));'') (\<lambda>l. ''});'') i (i + 1) lines"

definition supabase_step :: "nat \<Rightarrow> string list \<times> bool \<Rightarrow> string list \<times> bool" where
  "supabase_step i st =
     (case st of (lines, modified) \<Rightarrow>
        (let line = lines ! i;
             st1 = (if contains ''await supabase'' line \<and> i + 1 < length lines
                       \<and> contains ''as any).from'' (lines ! (i + 1))
                    then ((lines[i := str_replace ''await supabase'' ''await (supabase as any)''
                                         (lines ! i)])
                            [i + 1 := str_replace ''as any).from'' ''.from'' (lines ! (i + 1))],
                          True)
                    else (lines, modified))
         in if contains ''await (supabase as any).rpc'' line
            then (case rpc_lookahead i (fst st1) of
                    (lines', found) \<Rightarrow> (lines', if found then True else snd st1))
            else st1))"

definition fix_supabase_lines :: "string list \<Rightarrow> string list \<times> bool" where
  "fix_supabase_lines lines = fold supabase_step [0..<length lines] (lines, False)"

definition fix_supabase_file :: "disk \<Rightarrow> string \<Rightarrow> disk" where
  "fix_supabase_file d file_path =
     (case d file_path of
        None \<Rightarrow> d
      | Some raw \<Rightarrow>
          (case fix_supabase_lines (str_split LF (read_text raw)) of
             (lines, modified) \<Rightarrow>
               if modified then d(file_path \<mapsto> write_text (str_join LF lines)) else d))"

text \<open>
  \<open>fix-all-lte.py\<close>, lines 13 to 20: the rule looks back at the line before the
  reported one (the empty string before the first line) and edits the reported line.
\<close>

definition lte_step :: "nat \<Rightarrow> string list \<times> bool \<Rightarrow> string list \<times> bool" where
  "lte_step i st =
     (case st of (lines, modified) \<Rightarrow>
        (let line = lines ! i
         in if contains ''.lte(.*));'' line
            then (let prev_line = (if i > 0 then lines ! (i - 1) else [])
                  in if contains ''gte'' prev_line
                     then (lines[i := str_replace ''.lte(.*));''
                                      (''.lte('' @ [CHR 0x22] @ ''created_at'' @ [CHR 0x22]
                                         @ '', dateRange.end.toISOString());'')
                                      line],
                           True)
                     else (lines, modified))
            else (lines, modified)))"

section \<open>The property-access scripts\<close>

text \<open>
  \<open>fix-all-property-access.py\<close>, \<open>fix-batch-8.py\<close>,
  \<open>fix-property-access-batch.py\<close> and \<open>fix-ts-property-access.py\<close> substitute the
  pattern \<open>\b([a-zA-Z_][a-zA-Z0-9_]*)\s*\.\s*{prop}\b\<close> by the template
  \<open>(\1 as any).{prop}\<close>, where \<open>prop\<close> comes out of a group \<open>(\w+)\<close> of the
  diagnostic pattern.

  \<open>access_tail\<close> is the part \<open>\s*\.\s*{prop}\b\<close> of the pattern tried on a text; it
  returns the last character matched and the text after the match. Both \<open>\s*\<close> take
  every space there is: a shorter choice leaves a space where the pattern needs
  \<open>.\<close> or the first character of \<open>prop\<close>, a word character.
\<close>

definition access_tail :: "string \<Rightarrow> string \<Rightarrow> (char option \<times> string) option" where
  "access_tail prop s =
     (case dropWhile is_space s of
        [] \<Rightarrow> None
      | d # ds \<Rightarrow>
          if d = CHR ''.''
          then (let after_dot = dropWhile is_space ds;
                    rest = drop (length prop) after_dot;
                    back = (if prop = [] then Some (last (d # takeWhile is_space ds))
                            else Some (last prop))
                in if starts_with prop after_dot \<and> boundary back (next_char rest)
                   then Some (back, rest) else None)
          else None)"

text \<open>
  The whole pattern at one position. The identifier takes every character of
  \<open>[a-zA-Z0-9_]\<close> there is: a shorter choice leaves such a character where the
  pattern needs a space or \<open>.\<close>. The result is group 1, the last character matched
  and the text after the match.
\<close>

definition match_access ::
    "string \<Rightarrow> char option \<Rightarrow> string \<Rightarrow> (string \<times> char option \<times> string) option" where
  "match_access prop prev s =
     (case s of
        [] \<Rightarrow> None
      | c # cs \<Rightarrow>
          if boundary prev (Some c) \<and> is_ident_start c
          then (case access_tail prop (dropWhile is_ident_char cs) of
                  None \<Rightarrow> None
                | Some (back, rest) \<Rightarrow> Some (c # takeWhile is_ident_char cs, back, rest))
          else None)"

text \<open>A match consumes at least the identifier and the dot.\<close>

lemma access_tail_shorter:
  "access_tail prop s = Some (back, rest) \<Longrightarrow> length rest < length s"
proof -
  assume a: "access_tail prop s = Some (back, rest)"
  then obtain d ds where d: "dropWhile is_space s = d # ds"
    by (cases "dropWhile is_space s") (auto simp: access_tail_def)
  with a have "rest = drop (length prop) (dropWhile is_space ds)"
    by (auto simp: access_tail_def Let_def split: if_splits)
  then have "length rest \<le> length ds"
    using length_dropWhile_le [of is_space ds] by simp
  moreover have "length (d # ds) \<le> length s"
    using length_dropWhile_le [of is_space s] d by simp
  ultimately show ?thesis by simp
qed

lemma match_access_shorter:
  "match_access prop prev s = Some (ident, back, rest) \<Longrightarrow> length rest < length s"
proof -
  assume a: "match_access prop prev s = Some (ident, back, rest)"
  then obtain c cs where s: "s = c # cs" by (cases s) (auto simp: match_access_def)
  with a have "access_tail prop (dropWhile is_ident_char cs) = Some (back, rest)"
    by (auto simp: match_access_def split: if_splits option.splits)
  then have "length rest < length (dropWhile is_ident_char cs)" by (rule access_tail_shorter)
  then show ?thesis using s length_dropWhile_le [of is_ident_char cs] by simp
qed

text \<open>\<open>re.sub\<close> with the template \<open>(\1 as any).{prop}\<close>.\<close>

function re_sub_access :: "string \<Rightarrow> char option \<Rightarrow> string \<Rightarrow> string" where
  "re_sub_access prop prev s =
     (case s of
        [] \<Rightarrow> []
      | c # cs \<Rightarrow>
          (case match_access prop prev s of
             Some (ident, back, rest) \<Rightarrow>
               ''('' @ ident @ '' as any).'' @ prop @ re_sub_access prop back rest
           | None \<Rightarrow> c # re_sub_access prop (Some c) cs))"
  by pat_completeness auto
termination
  by (relation "measure (\<lambda>(prop, prev, s). length s)")
     (auto dest: match_access_shorter)

declare re_sub_access.simps [simp del]

text \<open>
  \<open>re.search\<close> with the same pattern: whether it matches at some position of the
  text.
\<close>

fun re_search_access :: "string \<Rightarrow> char option \<Rightarrow> string \<Rightarrow> bool" where
  "re_search_access prop prev [] = False"
| "re_search_access prop prev (c # cs) =
     (match_access prop prev (c # cs) \<noteq> None \<or> re_search_access prop (Some c) cs)"

text \<open>
  The line transform of the first three scripts (the line is replaced when the new
  line differs, which is the change they report) and that of
  \<open>fix-ts-property-access.py\<close>, lines 42 and 43.
\<close>

definition escape_line :: "string \<Rightarrow> string \<Rightarrow> string" where
  "escape_line prop line = re_sub_access prop None line"

definition ts_property_access_line :: "string \<Rightarrow> string \<Rightarrow> string" where
  "ts_property_access_line prop line =
     (if re_search_access prop None line then re_sub_access prop None line else line)"

text \<open>
  The loop over the errors of one file in \<open>fix-all-property-access.py\<close> (lines 37 to
  45), the same in \<open>fix-batch-8.py\<close> and \<open>fix-property-access-batch.py\<close>.
\<close>

fun property_access_apply ::
    "string list \<times> bool \<Rightarrow> (int \<times> string) list \<Rightarrow> string list \<times> bool" where
  "property_access_apply (lines, modified) [] = (lines, modified)"
| "property_access_apply (lines, modified) ((line_num, prop) # errors) =
     (let idx = line_num - 1
      in if 0 \<le> idx \<and> idx < int (length lines)
         then (let line = lines ! nat idx;
                   new_line = escape_line prop line
               in if new_line \<noteq> line
                  then property_access_apply (lines[nat idx := new_line], True) errors
                  else property_access_apply (lines, modified) errors)
         else property_access_apply (lines, modified) errors)"

text \<open>
  The body of the loop over the files in \<open>fix-all-property-access.py\<close> (lines 28 to
  52): the file is written when some line changed.
\<close>

definition property_access_file ::
    "disk \<Rightarrow> string \<times> (int \<times> string) list \<Rightarrow> disk \<times> bool" where
  "property_access_file d item =
     (case item of (file_path, errors) \<Rightarrow>
        (case d file_path of
           None \<Rightarrow> (d, False)
         | Some raw \<Rightarrow>
             (case property_access_apply (str_split LF (read_text raw), False) errors of
                (lines, modified) \<Rightarrow>
                  if modified then (d(file_path \<mapsto> write_text (str_join LF lines)), True)
                  else (d, False))))"

text \<open>
  A chained access: somewhere on the line an access that the substitution rewrites is
  followed at once by a further \<open>.prop\<close> (as in \<open>a.name.name\<close>).
\<close>

function chained :: "string \<Rightarrow> char option \<Rightarrow> string \<Rightarrow> bool" where
  "chained prop prev s =
     (case s of
        [] \<Rightarrow> False
      | c # cs \<Rightarrow>
          (case match_access prop prev s of
             Some (ident, back, rest) \<Rightarrow>
               access_tail prop rest \<noteq> None \<or> chained prop back rest
           | None \<Rightarrow> chained prop (Some c) cs))"
  by pat_completeness auto
termination
  by (relation "measure (\<lambda>(prop, prev, s). length s)")
     (auto dest: match_access_shorter)

declare chained.simps [simp del]

section \<open>\<open>fix-logger-imports.py\<close>\<close>

text \<open>The line the script inserts (line 37).\<close>

definition logger_import :: string where
  "logger_import =
     ''import { logger } from '' @ [CHR 0x22] @ ''@/lib/logger'' @ [CHR 0x22] @ '';''"

text \<open>
  Lines 30 to 34: the loop goes over every line of the file and keeps the index of the
  last line that starts with \<open>import\<close>, \<open>-1\<close> when there is none.
\<close>

fun last_import :: "int \<Rightarrow> nat \<Rightarrow> string list \<Rightarrow> int" where
  "last_import import_idx i [] = import_idx"
| "last_import import_idx i (line # lines) =
     last_import (if starts_with ''import'' line then int i else import_idx) (i + 1) lines"

text \<open>\<open>xs.insert(i, x)\<close>: before position \<open>i\<close>, counted from the end when negative.\<close>

definition list_insert :: "int \<Rightarrow> 'a \<Rightarrow> 'a list \<Rightarrow> 'a list" where
  "list_insert i x xs =
     (let n = int (length xs);
          j = (if i < 0 then max 0 (n + i) else min i n)
      in take (nat j) xs @ x # drop (nat j) xs)"

text \<open>
  Lines 18 to 39 for one file. The tests of line 25 are substring tests with
  \<open>in\<close>, on the literal texts \<open>import.*logger\<close> and \<open>from.*logger\<close>.
\<close>

definition logger_imports_file :: "disk \<Rightarrow> string \<Rightarrow> disk" where
  "logger_imports_file d file_path =
     (case d file_path of
        None \<Rightarrow> d
      | Some raw \<Rightarrow>
          (let content = read_text raw
           in if contains ''import.*logger'' content \<or> contains ''from.*logger'' content
              then d
              else (let lines = str_split LF content;
                        import_idx = last_import (- 1) 0 lines
                    in if import_idx \<ge> 0
                       then d(file_path \<mapsto>
                              write_text (str_join LF (list_insert (import_idx + 1) logger_import lines)))
                       else d)))"

section \<open>The frame of an edit\<close>

text \<open>
  What it means that a run on a file touched only the reported lines: the file, read
  again as the scripts read it, has as many lines as before, and every line whose
  1-based number is not among the reported line numbers has the text it had before.
\<close>

definition frame_kept :: "int list \<Rightarrow> string \<Rightarrow> string \<Rightarrow> bool" where
  "frame_kept reported raw raw' =
     (length (file_lines raw') = length (file_lines raw)
      \<and> (\<forall>i \<in> {0..<length (file_lines raw)}.
            int i + 1 \<notin> set reported \<longrightarrow> file_lines raw' ! i = file_lines raw ! i))"

section \<open>Properties of the identifier substitution\<close>

lemma re_sub_word_Nil: "old \<noteq> [] \<Longrightarrow> re_sub_word g old new prev [] = []"
  by (subst re_sub_word.simps) (simp add: match_word_def starts_with_def)

lemma re_sub_word_copy:
  assumes "old \<noteq> []" "is_word (hd old)" "word_at prev \<or> \<not> is_word c"
  shows "re_sub_word g old new prev (c # cs) = c # re_sub_word g old new (Some c) cs"
proof -
  have "match_word g old prev (c # cs) = None"
  proof (cases "is_word c")
    case True
    then have "\<not> boundary prev (next_char (c # cs))"
      using assms(3) by (simp add: boundary_def next_char_def)
    then show ?thesis by (simp add: match_word_def)
  next
    case False
    have "\<not> starts_with old (c # cs)"
    proof
      assume "starts_with old (c # cs)"
      then have "hd old = c" using assms(1)
        by (cases old) (auto simp: starts_with_def)
      with assms(2) False show False by simp
    qed
    then show ?thesis by (simp add: match_word_def)
  qed
  then show ?thesis by (subst re_sub_word.simps) simp
qed

lemma re_sub_word_inside:
  assumes "old \<noteq> []" "is_word (hd old)"
  shows "word_at prev \<Longrightarrow> list_all is_word w \<Longrightarrow>
         re_sub_word g old new prev (w @ r)
           = w @ re_sub_word g old new (if w = [] then prev else Some (last w)) r"
proof (induction w arbitrary: prev)
  case Nil
  then show ?case by simp
next
  case (Cons c w)
  have "re_sub_word g old new prev ((c # w) @ r) = c # re_sub_word g old new (Some c) (w @ r)"
    using re_sub_word_copy [OF assms, of prev c] Cons.prems by simp
  also have "re_sub_word g old new (Some c) (w @ r)
      = w @ re_sub_word g old new (if w = [] then Some c else Some (last w)) r"
    using Cons.IH [of "Some c"] Cons.prems by simp
  finally show ?case by simp
qed


lemma starts_with_append_word:
  assumes "list_all is_word old" "list_all is_word u" "\<not> word_at (next_char r)"
    and sw: "starts_with old (u @ r)"
  shows "length old \<le> length u"
proof (rule ccontr)
  assume "\<not> length old \<le> length u"
  then have lt: "length u < length old" by simp
  from sw have "take (length old) (u @ r) = old" by (simp add: starts_with_def)
  then have eq: "u @ take (length old - length u) r = old" using lt by simp
  then obtain d r' where r: "r = d # r'" using lt by (cases r) auto
  have "old ! length u = d" using eq lt r
    by (metis Suc_diff_Suc nth_append_length take_Suc_Cons)
  moreover have "is_word (old ! length u)" using assms(1) lt by (simp add: list_all_length)
  ultimately show False using assms(3) r by (simp add: next_char_def)
qed

lemma match_word_run:
  assumes old: "old \<noteq> []" "list_all is_word old"
    and u: "u \<noteq> []" "list_all is_word u"
    and prev: "\<not> word_at prev" and r: "\<not> word_at (next_char r)"
  shows "match_word g old prev (u @ r)
           = (if u = old \<and> (g \<longrightarrow> next_char r \<noteq> Some CHR '':'') then Some r else None)"
proof (cases "u = old")
  case True
  have "boundary prev (next_char (old @ r))"
    using old prev by (cases old) (auto simp: boundary_def next_char_def)
  moreover have "boundary (Some (last old)) (next_char r)"
    using old r by (simp add: boundary_def list_all_iff)
  ultimately show ?thesis using True old by (simp add: match_word_def starts_with_def)
next
  case False
  have "\<not> (starts_with old (u @ r) \<and> boundary (Some (last old)) (next_char (drop (length old) (u @ r))))"
  proof
    assume a: "starts_with old (u @ r) \<and> boundary (Some (last old)) (next_char (drop (length old) (u @ r)))"
    then have le: "length old \<le> length u"
      using starts_with_append_word [OF old(2) u(2) r] by simp
    from a have tk: "take (length old) u = old" using le by (simp add: starts_with_def)
    with False have lt: "length old < length u" using le
      by (metis le_neq_implies_less take_all_iff order_refl)
    then have "next_char (drop (length old) (u @ r)) = Some (u ! length old)"
      by (simp add: next_char_def drop_Cons' Cons_nth_drop_Suc [symmetric] split: list.splits)
    moreover have "is_word (u ! length old)" using u(2) lt by (simp add: list_all_length)
    moreover have "is_word (last old)" using old by (simp add: list_all_iff)
    ultimately show False using a by (simp add: boundary_def)
  qed
  then show ?thesis using False old by (auto simp: match_word_def Let_def)
qed


lemma re_sub_word_run:
  assumes old: "old \<noteq> []" "list_all is_word old"
    and u: "u \<noteq> []" "list_all is_word u"
    and prev: "\<not> word_at prev" and r: "\<not> word_at (next_char r)"
  shows "re_sub_word g old new prev (u @ r)
           = (if u = old \<and> (g \<longrightarrow> next_char r \<noteq> Some CHR '':'') then new else u)
               @ re_sub_word g old new (Some (last u)) r"
proof -
  have hd: "is_word (hd old)" using old by (cases old) auto
  obtain c w where cw: "u = c # w" using u(1) by (cases u) auto
  show ?thesis
  proof (cases "u = old \<and> (g \<longrightarrow> next_char r \<noteq> Some CHR '':'')")
    case True
    then have "match_word g old prev (u @ r) = Some r"
      using match_word_run [OF assms] by simp
    then show ?thesis using True old(1)
      by (subst re_sub_word.simps) simp
  next
    case False
    then have "match_word g old prev (u @ r) = None"
      using match_word_run [OF assms] by simp
    then have "re_sub_word g old new prev (u @ r) = c # re_sub_word g old new (Some c) (w @ r)"
      using cw by (subst re_sub_word.simps) simp
    also have "re_sub_word g old new (Some c) (w @ r)
        = w @ re_sub_word g old new (if w = [] then Some c else Some (last w)) r"
      using re_sub_word_inside [OF old(1) hd, of "Some c" w] u(2) cw by simp
    finally have "re_sub_word g old new prev (u @ r) = u @ re_sub_word g old new (Some (last u)) r"
      using cw by simp
    then show ?thesis using False by auto
  qed
qed

lemma next_char_dropWhile: "\<not> word_at (next_char (dropWhile is_word cs))"
  by (induction cs) (simp_all add: next_char_def)

lemma next_char_re_sub_word:
  assumes "old \<noteq> []" "is_word (hd old)"
  shows "\<not> word_at (next_char s) \<Longrightarrow>
         next_char (re_sub_word g old new prev s) = next_char s"
proof (cases s)
  case Nil
  then show ?thesis using assms by (simp add: re_sub_word_Nil)
next
  case (Cons c cs)
  assume "\<not> word_at (next_char s)"
  then show ?thesis
    using Cons re_sub_word_copy [OF assms, where prev = prev and c = c and cs = cs]
    by (simp add: next_char_def)
qed

lemma next_char_tokens: "next_char (concat (tokens s)) = next_char s"
  by (cases s) (simp_all add: next_char_def)

lemma concat_tokens: "concat (tokens s) = s"
  by (induction s rule: tokens.induct) simp_all

lemma re_sub_word_tokens:
  assumes old: "old \<noteq> []" "list_all is_word old"
  shows "\<not> word_at prev \<or> \<not> word_at (next_char s) \<Longrightarrow>
         re_sub_word g old new prev s = rewrite_tokens g old new (tokens s)"
proof (induction s arbitrary: prev rule: tokens.induct)
  case 1
  then show ?case using old by (simp add: re_sub_word_Nil)
next
  case (2 c cs)
  have hd: "is_word (hd old)" using old by (cases old) auto
  show ?case
  proof (cases "is_word c")
    case True
    let ?u = "c # takeWhile is_word cs" and ?r = "dropWhile is_word cs"
    have s: "c # cs = ?u @ ?r" by simp
    have r: "\<not> word_at (next_char ?r)"
      by (rule next_char_dropWhile)
    have u: "?u \<noteq> []" "list_all is_word ?u"
      using True by (auto simp: list_all_iff dest: set_takeWhileD)
    have prev: "\<not> word_at prev" using "2.prems" True by (simp add: next_char_def)
    have "re_sub_word g old new prev (?u @ ?r)
        = (if ?u = old \<and> (g \<longrightarrow> next_char ?r \<noteq> Some CHR '':'') then new else ?u)
            @ re_sub_word g old new (Some (last ?u)) ?r"
      by (rule re_sub_word_run [OF old u prev r])
    moreover have "re_sub_word g old new (Some (last ?u)) ?r = rewrite_tokens g old new (tokens ?r)"
      using "2.IH"(1) [OF True] r by simp
    ultimately show ?thesis using True by (simp add: concat_tokens)
  next
    case False
    have "re_sub_word g old new prev (c # cs) = c # re_sub_word g old new (Some c) cs"
      using re_sub_word_copy [OF old(1) hd] False by simp
    moreover have "re_sub_word g old new (Some c) cs = rewrite_tokens g old new (tokens cs)"
      using "2.IH"(2) [OF False] False by simp
    moreover have "[c] \<noteq> old" using hd False by auto
    ultimately show ?thesis using False by simp
  qed
qed


section \<open>Properties of splitting, joining and reading\<close>

lemma str_split_not_Nil: "str_split sep s \<noteq> []"
  by (induction s) (auto split: list.splits)

lemma str_join_split: "str_join sep (str_split sep s) = s"
proof (induction s)
  case Nil
  then show ?case by simp
next
  case (Cons c cs)
  obtain l ls where ls: "str_split sep cs = l # ls"
    using str_split_not_Nil [of sep cs] by (cases "str_split sep cs") auto
  show ?case using Cons ls by (cases ls) auto
qed

lemma str_split_sep_free: "l \<in> set (str_split sep s) \<Longrightarrow> sep \<notin> set l"
proof (induction s arbitrary: l)
  case Nil
  then show ?case by simp
next
  case (Cons c cs)
  obtain k ks where ks: "str_split sep cs = k # ks"
    using str_split_not_Nil [of sep cs] by (cases "str_split sep cs") auto
  show ?case using Cons ks by (auto split: if_splits)
qed

lemma set_str_join: "l \<in> set ls \<Longrightarrow> set l \<subseteq> set (str_join sep ls)"
  by (induction sep ls rule: str_join.induct) auto

lemma str_split_subset: "l \<in> set (str_split sep s) \<Longrightarrow> set l \<subseteq> set s"
  using set_str_join [of l "str_split sep s" sep] by (simp add: str_join_split)

lemma str_split_sep_free_line: "sep \<notin> set l \<Longrightarrow> str_split sep l = [l]"
  by (induction l) auto

lemma str_split_append:
  "sep \<notin> set l \<Longrightarrow> str_split sep (l @ sep # r) = l # str_split sep r"
  by (induction l) auto

lemma str_split_join:
  "ls \<noteq> [] \<Longrightarrow> \<forall>l \<in> set ls. sep \<notin> set l \<Longrightarrow> str_split sep (str_join sep ls) = ls"
proof (induction ls rule: str_join.induct)
  case (1 sep)
  then show ?case by simp
next
  case (2 sep l)
  then show ?case by (simp add: str_split_sep_free_line)
next
  case (3 sep l k ks)
  then show ?case by (simp add: str_split_append)
qed

lemma universal_newlines_no_CR: "CR \<notin> set (universal_newlines s)"
  by (induction s rule: universal_newlines.induct) auto

lemma universal_newlines_id: "CR \<notin> set s \<Longrightarrow> universal_newlines s = s"
  by (induction s rule: universal_newlines.induct) auto

lemma set_re_sub_word: "set (re_sub_word g old new prev s) \<subseteq> set s \<union> set new"
proof (induction g old new prev s rule: re_sub_word.induct)
  case (1 guard old new prev s)
  show ?case
  proof (cases "match_word guard old prev s")
    case None
    show ?thesis
    proof (cases s)
      case Nil
      then show ?thesis using None by (subst re_sub_word.simps) simp
    next
      case (Cons c cs)
      have "set (re_sub_word guard old new (Some c) cs) \<subseteq> set cs \<union> set new"
        using 1 None Cons by blast
      then show ?thesis using None Cons by (subst re_sub_word.simps) auto
    qed
  next
    case (Some rest)
    then have rest: "rest = drop (length old) s"
      by (auto simp: match_word_def Let_def split: if_splits)
    show ?thesis
    proof (cases "old = []")
      case True
      show ?thesis
      proof (cases s)
        case Nil
        then show ?thesis using Some True by (subst re_sub_word.simps) simp
      next
        case (Cons c cs)
        have "set (re_sub_word guard old new (Some c) cs) \<subseteq> set cs \<union> set new"
          using 1 Some True Cons by blast
        then show ?thesis using Some True Cons by (subst re_sub_word.simps) auto
      qed
    next
      case False
      have "set (re_sub_word guard old new (Some (last old)) rest) \<subseteq> set rest \<union> set new"
        using 1 Some False by blast
      moreover have "set rest \<subseteq> set s" using rest by (simp add: set_drop_subset)
      ultimately show ?thesis using Some False by (subst re_sub_word.simps) auto
    qed
  qed
qed

lemma length_ts_errors_apply: "length (ts_errors_apply lines issues) = length lines"
  by (induction lines issues rule: ts_errors_apply.induct) (simp_all add: Let_def)

lemma ts_errors_apply_frame:
  "i < length lines \<Longrightarrow> \<forall>(n, old_var, new_var) \<in> set issues. n \<noteq> int i + 1 \<Longrightarrow>
   ts_errors_apply lines issues ! i = lines ! i"
proof (induction lines issues rule: ts_errors_apply.induct)
  case (1 lines)
  then show ?case by simp
next
  case (2 lines line_num old_var new_var issues)
  then show ?case by (auto simp: Let_def)
qed


section \<open>The claims about the identifier substitution\<close>

text \<open>
  C10. The transform of \<open>fix-unused-vars.py\<close>, which replaces the identifier \<open>var\<close>
  at word boundaries by \<open>_var\<close>, is idempotent: applied to its own output it changes
  nothing, because \<open>_\<close> is a word character and the prefixed occurrences are no
  longer at a word boundary.
\<close>

theorem unused_var_line_idempotent:
  assumes "var \<noteq> []" "list_all is_word var"
  shows "unused_var_line var (unused_var_line var line) = unused_var_line var line"
proof -
  let ?new = "CHR ''_'' # var"
  have new: "list_all is_word ?new" "?new \<noteq> var" "last ?new = last var"
    using assms by (auto simp: is_word_def)
  have step: "\<not> word_at prev \<or> \<not> word_at (next_char s) \<Longrightarrow>
      re_sub_word False var ?new prev (rewrite_tokens False var ?new (tokens s))
        = rewrite_tokens False var ?new (tokens s)" for prev s
  proof (induction s arbitrary: prev rule: tokens.induct)
    case 1
    then show ?case using assms by (simp add: re_sub_word_Nil)
  next
    case (2 c cs)
    have hd: "is_word (hd var)" using assms by (cases var) auto
    show ?case
    proof (cases "is_word c")
      case True
      let ?u = "c # takeWhile is_word cs" and ?r = "dropWhile is_word cs"
      let ?v = "if ?u = var then ?new else ?u"
      let ?out = "rewrite_tokens False var ?new (tokens ?r)"
      have r: "\<not> word_at (next_char ?r)" by (rule next_char_dropWhile)
      have out: "\<not> word_at (next_char ?out)"
        using r re_sub_word_tokens [OF assms, where prev = "Some c" and s = ?r and g = False and new = ?new]
              next_char_re_sub_word [OF assms(1) hd, where s = ?r and prev = "Some c" and g = False and new = ?new]
        by simp
      have v: "?v \<noteq> []" "list_all is_word ?v" "?v \<noteq> var" "last ?v = last ?u"
        using True new by (auto simp: list_all_iff dest: set_takeWhileD)
      have prev: "\<not> word_at prev" using "2.prems" True by (simp add: next_char_def)
      have "re_sub_word False var ?new prev (?v @ ?out)
          = (if ?v = var \<and> (False \<longrightarrow> next_char ?out \<noteq> Some CHR '':'') then ?new else ?v)
              @ re_sub_word False var ?new (Some (last ?v)) ?out"
        by (rule re_sub_word_run [OF assms v(1,2) prev out])
      moreover have "re_sub_word False var ?new (Some (last ?u)) ?out = ?out"
        using "2.IH"(1) [OF True] r by simp
      ultimately show ?thesis using True v(3,4) by simp
    next
      case False
      have "[c] \<noteq> var" using hd False by auto
      moreover have "re_sub_word False var ?new prev (c # rewrite_tokens False var ?new (tokens cs))
          = c # re_sub_word False var ?new (Some c) (rewrite_tokens False var ?new (tokens cs))"
        using re_sub_word_copy [OF assms(1) hd] False by simp
      moreover have "re_sub_word False var ?new (Some c) (rewrite_tokens False var ?new (tokens cs))
          = rewrite_tokens False var ?new (tokens cs)"
        using "2.IH"(2) [OF False] False by simp
      ultimately show ?thesis using False by simp
    qed
  qed
  have "unused_var_line var line = rewrite_tokens False var ?new (tokens line)"
    unfolding unused_var_line_def
    using re_sub_word_tokens [OF assms, where prev = None and s = line] by simp
  then show ?thesis
    unfolding unused_var_line_def using step [of None line] by simp
qed

theorem unused_var_line_idempotent_witness:
  "''count'' \<noteq> [] \<and> list_all is_word ''count''
     \<and> unused_var_line ''count'' ''const count = 0;'' = ''const _count = 0;''
     \<and> unused_var_line ''count'' (unused_var_line ''count'' ''const count = 0;'')
         = unused_var_line ''count'' ''const count = 0;''"
proof -
  have h1: "''count'' \<noteq> []" by simp
  have h2: "list_all is_word ''count''" by (simp add: is_word_def)
  have v: "unused_var_line ''count'' ''const count = 0;'' = ''const _count = 0;''"
    by code_simp
  show ?thesis
    using h1 h2 v unused_var_line_idempotent [OF h1 h2, of "''const count = 0;''"] by simp
qed



section \<open>The claims about files\<close>

lemma ts_errors_apply_in_range:
  "0 \<le> line_num - 1 \<and> line_num - 1 < int (length lines) \<Longrightarrow>
   ts_errors_apply lines ((line_num, old_var, new_var) # issues)
     = ts_errors_apply
         (lines[nat (line_num - 1) := ts_errors_line old_var new_var (lines ! nat (line_num - 1))])
         issues"
  by (simp only: ts_errors_apply.simps Let_def if_P if_True simp_thms)

lemma ts_errors_apply_out_of_range:
  "\<not> (0 \<le> line_num - 1 \<and> line_num - 1 < int (length lines)) \<Longrightarrow>
   ts_errors_apply lines ((line_num, old_var, new_var) # issues) = ts_errors_apply lines issues"
  by (simp only: ts_errors_apply.simps Let_def if_not_P if_False simp_thms)

lemma ts_errors_apply_clean:
  assumes "\<forall>(n, old_var, new_var) \<in> set issues. c \<notin> set new_var"
    and "\<forall>l \<in> set lines. c \<notin> set l"
  shows "\<forall>l \<in> set (ts_errors_apply lines issues). c \<notin> set l"
  using assms
proof (induction lines issues rule: ts_errors_apply.induct)
  case (1 lines)
  then show ?case by simp
next
  case (2 lines line_num old_var new_var issues)
  let ?idx = "line_num - 1"
  have rest: "\<forall>(n, old_var, new_var) \<in> set issues. c \<notin> set new_var"
    using "2.prems"(1) by simp
  show ?case
  proof (cases "0 \<le> ?idx \<and> ?idx < int (length lines)")
    case True
    let ?l = "ts_errors_line old_var new_var (lines ! nat ?idx)"
    have "nat ?idx < length lines" using True by linarith
    then have "c \<notin> set (lines ! nat ?idx)" using "2.prems"(2) nth_mem by blast
    moreover have "c \<notin> set new_var" using "2.prems"(1) by simp
    ultimately have "c \<notin> set ?l"
      using set_re_sub_word [of False old_var new_var None "lines ! nat ?idx"]
      unfolding ts_errors_line_def by blast
    then have "\<forall>l \<in> set (lines[nat ?idx := ?l]). c \<notin> set l"
      using "2.prems"(2) set_update_subset_insert [of lines "nat ?idx" ?l] by blast
    then have "\<forall>l \<in> set (ts_errors_apply (lines[nat ?idx := ?l]) issues). c \<notin> set l"
      using "2.IH"(1) [OF refl True rest] by blast
    then show ?thesis by (simp only: ts_errors_apply_in_range [OF True])
  next
    case False
    have "\<forall>l \<in> set (ts_errors_apply lines issues). c \<notin> set l"
      using "2.IH"(2) [OF refl False rest "2.prems"(2)] .
    then show ?thesis by (simp only: ts_errors_apply_out_of_range [OF False])
  qed
qed

lemma set_str_join_subset: "set (str_join sep ls) \<subseteq> (\<Union>l \<in> set ls. set l) \<union> {sep}"
  by (induction sep ls rule: str_join.induct) auto

lemma not_word_newline: "\<not> is_word LF" "\<not> is_word CR"
  by (simp_all add: is_word_def)

lemma is_word_not_newline: "is_word c \<Longrightarrow> c \<noteq> LF \<and> c \<noteq> CR"
  using not_word_newline by auto

text \<open>The frame of \<open>fix-ts-errors.py\<close> on one file, line by line.\<close>

lemma ts_errors_frame:
  assumes f: "d file_path = Some raw"
    and new: "\<forall>(n, old_var, new_var) \<in> set issues. list_all is_word new_var"
  shows "\<exists>raw'. fst (ts_errors_file d (file_path, issues)) file_path = Some raw'
           \<and> length (file_lines raw') = length (file_lines raw)
           \<and> (\<forall>i < length (file_lines raw).
                 (\<forall>(n, old_var, new_var) \<in> set issues. n \<noteq> int i + 1)
                   \<longrightarrow> file_lines raw' ! i = file_lines raw ! i)"
proof -
  let ?content = "read_text raw"
  let ?lines = "str_split LF ?content"
  let ?lines' = "ts_errors_apply ?lines issues"
  let ?new_content = "str_join LF ?lines'"
  have clean: "\<forall>(n, old_var, new_var) \<in> set issues. c \<notin> set new_var" if "c = LF \<or> c = CR" for c
  proof (intro ballI, clarify)
    fix n old_var new_var
    assume "(n, old_var, new_var) \<in> set issues" and "c \<in> set new_var"
    then have "is_word c" using new by (auto simp: list_all_iff)
    then show False using that is_word_not_newline by blast
  qed
  have "CR \<notin> set ?content" by (simp add: read_text_def universal_newlines_no_CR)
  then have noCR: "\<forall>l \<in> set ?lines. CR \<notin> set l"
    using str_split_subset [of _ LF ?content] by blast
  have noLF: "\<forall>l \<in> set ?lines. LF \<notin> set l"
    using str_split_sep_free [of _ LF ?content] by blast
  have noCR': "\<forall>l \<in> set ?lines'. CR \<notin> set l"
    by (rule ts_errors_apply_clean [OF clean noCR]) simp
  have noLF': "\<forall>l \<in> set ?lines'. LF \<notin> set l"
    by (rule ts_errors_apply_clean [OF clean noLF]) simp
  have ne: "?lines' \<noteq> []"
    using length_ts_errors_apply [of ?lines issues] str_split_not_Nil [of LF ?content]
    by auto
  have "CR \<notin> set ?new_content"
  proof
    assume "CR \<in> set ?new_content"
    then show False using noCR' set_str_join_subset [of LF ?lines'] by fastforce
  qed
  then have reread: "file_lines ?new_content = ?lines'"
    using str_split_join [OF ne noLF']
    by (simp add: file_lines_def read_text_def universal_newlines_id)
  show ?thesis
  proof (cases "?new_content = ?content")
    case True
    then have "fst (ts_errors_file d (file_path, issues)) file_path = Some raw"
      using f by (simp add: ts_errors_file_def ts_errors_new_content_def Let_def)
    then show ?thesis by simp
  next
    case False
    then have "fst (ts_errors_file d (file_path, issues)) file_path = Some ?new_content"
      using f
      by (simp add: ts_errors_file_def ts_errors_new_content_def Let_def write_text_def)
    moreover have "length (file_lines ?new_content) = length (file_lines raw)"
      using reread by (simp add: file_lines_def length_ts_errors_apply)
    moreover have "\<forall>i < length (file_lines raw).
        (\<forall>(n, old_var, new_var) \<in> set issues. n \<noteq> int i + 1)
          \<longrightarrow> file_lines ?new_content ! i = file_lines raw ! i"
      using reread ts_errors_apply_frame [of _ ?lines issues] by (simp add: file_lines_def)
    ultimately show ?thesis by blast
  qed
qed


lemma out_of_range_iff:
  "(line_num < 1 \<or> int n < line_num) = (\<not> (0 \<le> line_num - 1 \<and> line_num - 1 < int n))"
  by linarith

lemma ts_errors_apply_stale:
  assumes "line_num < 1 \<or> int (length lines) < line_num"
  shows "ts_errors_apply lines (xs @ (line_num, old_var, new_var) # ys)
           = ts_errors_apply lines (xs @ ys)"
  using assms
proof (induction xs arbitrary: lines)
  case Nil
  then have "\<not> (0 \<le> line_num - 1 \<and> line_num - 1 < int (length lines))"
    using out_of_range_iff [of line_num "length lines"] by blast
  then show ?case using ts_errors_apply_out_of_range by simp
next
  case (Cons x xs)
  obtain n o' w where x: "x = (n, o', w)" by (cases x)
  show ?case
  proof (cases "0 \<le> n - 1 \<and> n - 1 < int (length lines)")
    case True
    let ?lines = "lines[nat (n - 1) := ts_errors_line o' w (lines ! nat (n - 1))]"
    have "line_num < 1 \<or> int (length ?lines) < line_num" using Cons.prems by simp
    then have "ts_errors_apply ?lines (xs @ (line_num, old_var, new_var) # ys)
                 = ts_errors_apply ?lines (xs @ ys)"
      by (rule Cons.IH)
    then show ?thesis
      by (simp only: x append_Cons ts_errors_apply_in_range [OF True])
  next
    case False
    have "ts_errors_apply lines (xs @ (line_num, old_var, new_var) # ys)
            = ts_errors_apply lines (xs @ ys)"
      using Cons.prems by (rule Cons.IH)
    then show ?thesis
      by (simp only: x append_Cons ts_errors_apply_out_of_range [OF False])
  qed
qed

lemma unused_vars_apply_in_range:
  "0 \<le> line_num - 1 \<and> line_num - 1 < int (length lines) \<Longrightarrow>
   unused_vars_apply lines ((line_num, var) # issues)
     = unused_vars_apply
         (lines[nat (line_num - 1) := unused_var_line var (lines ! nat (line_num - 1))]) issues"
  by (simp only: unused_vars_apply.simps Let_def if_P if_True simp_thms)

lemma unused_vars_apply_out_of_range:
  "\<not> (0 \<le> line_num - 1 \<and> line_num - 1 < int (length lines)) \<Longrightarrow>
   unused_vars_apply lines ((line_num, var) # issues) = unused_vars_apply lines issues"
  by (simp only: unused_vars_apply.simps Let_def if_not_P if_False simp_thms)

lemma unused_vars_apply_stale:
  assumes "line_num < 1 \<or> int (length lines) < line_num"
  shows "unused_vars_apply lines (xs @ (line_num, var) # ys) = unused_vars_apply lines (xs @ ys)"
  using assms
proof (induction xs arbitrary: lines)
  case Nil
  then have "\<not> (0 \<le> line_num - 1 \<and> line_num - 1 < int (length lines))"
    using out_of_range_iff [of line_num "length lines"] by blast
  then show ?case using unused_vars_apply_out_of_range by simp
next
  case (Cons x xs)
  obtain n v where x: "x = (n, v)" by (cases x)
  show ?case
  proof (cases "0 \<le> n - 1 \<and> n - 1 < int (length lines)")
    case True
    let ?lines = "lines[nat (n - 1) := unused_var_line v (lines ! nat (n - 1))]"
    have "line_num < 1 \<or> int (length ?lines) < line_num" using Cons.prems by simp
    then have "unused_vars_apply ?lines (xs @ (line_num, var) # ys)
                 = unused_vars_apply ?lines (xs @ ys)"
      by (rule Cons.IH)
    then show ?thesis
      by (simp only: x append_Cons unused_vars_apply_in_range [OF True])
  next
    case False
    have "unused_vars_apply lines (xs @ (line_num, var) # ys) = unused_vars_apply lines (xs @ ys)"
      using Cons.prems by (rule Cons.IH)
    then show ?thesis
      by (simp only: x append_Cons unused_vars_apply_out_of_range [OF False])
  qed
qed

text \<open>
  C7. A diagnostic whose file does not exist, or whose line number is outside
  \<open>1..lineCount\<close> of the loaded file, causes no edit: \<open>fix-ts-errors.py\<close> skips a
  missing file and leaves the disk as it is, and handling a file with an out-of-range
  diagnostic among its issues gives the same disk and the same written flag as
  handling it without that diagnostic; in \<open>fix-unused-vars.py\<close> the lines in memory
  are the same with and without it. The loop body cannot fail: it is a total function
  of the disk and the issues.
\<close>

theorem stale_reference_no_edit:
  "(d file_path = None \<longrightarrow> ts_errors_file d (file_path, issues) = (d, False))
   \<and> (d file_path = Some raw \<and> (line_num < 1 \<or> int (length (file_lines raw)) < line_num)
        \<longrightarrow> ts_errors_file d (file_path, xs @ (line_num, old_var, new_var) # ys)
              = ts_errors_file d (file_path, xs @ ys))
   \<and> (line_num < 1 \<or> int (length lines) < line_num
        \<longrightarrow> unused_vars_apply lines (us @ (line_num, var) # vs)
              = unused_vars_apply lines (us @ vs))"
proof (intro conjI impI)
  assume "d file_path = None"
  then show "ts_errors_file d (file_path, issues) = (d, False)"
    by (simp add: ts_errors_file_def)
next
  assume a: "d file_path = Some raw \<and> (line_num < 1 \<or> int (length (file_lines raw)) < line_num)"
  then have "ts_errors_apply (str_split LF (read_text raw)) (xs @ (line_num, old_var, new_var) # ys)
               = ts_errors_apply (str_split LF (read_text raw)) (xs @ ys)"
    using ts_errors_apply_stale [of line_num "str_split LF (read_text raw)"]
    by (simp add: file_lines_def)
  then show "ts_errors_file d (file_path, xs @ (line_num, old_var, new_var) # ys)
               = ts_errors_file d (file_path, xs @ ys)"
    using a by (simp add: ts_errors_file_def ts_errors_new_content_def)
next
  assume "line_num < 1 \<or> int (length lines) < line_num"
  then show "unused_vars_apply lines (us @ (line_num, var) # vs) = unused_vars_apply lines (us @ vs)"
    by (rule unused_vars_apply_stale)
qed


theorem stale_reference_no_edit_witness:
  "[''app/x.ts'' \<mapsto> ''let a = 1;''] ''lib/gone.ts'' = None
   \<and> ts_errors_file [''app/x.ts'' \<mapsto> ''let a = 1;''] (''lib/gone.ts'', [(1, ''a'', ''_a'')])
       = ([''app/x.ts'' \<mapsto> ''let a = 1;''], False)
   \<and> length (file_lines ''let a = 1;'') = 1
   \<and> ts_errors_file [''app/x.ts'' \<mapsto> ''let a = 1;'']
         (''app/x.ts'', [(1, ''a'', ''_a'')] @ (500, ''b'', ''_b'') # [])
       = ts_errors_file [''app/x.ts'' \<mapsto> ''let a = 1;''] (''app/x.ts'', [(1, ''a'', ''_a'')] @ [])
   \<and> unused_vars_apply [''let a = 1;''] ([] @ (0, ''a'') # [(1, ''a'')])
       = unused_vars_apply [''let a = 1;''] ([] @ [(1, ''a'')])"
proof -
  let ?d = "[''app/x.ts'' \<mapsto> ''let a = 1;'']"
  have h1: "?d ''lib/gone.ts'' = None" by simp
  have h2: "?d ''app/x.ts'' = Some ''let a = 1;''" by simp
  have h3: "length (file_lines ''let a = 1;'') = 1" by code_simp
  have h4: "(500::int) < 1 \<or> int (length (file_lines ''let a = 1;'')) < 500"
    by (simp add: h3)
  have h5: "(0::int) < 1 \<or> int (length [''let a = 1;'']) < 0" by simp
  show ?thesis
    using h1 h2 h3 h4 h5
      stale_reference_no_edit [where d = ?d and file_path = "''lib/gone.ts''"
        and issues = "[(1, ''a'', ''_a'')]"]
      stale_reference_no_edit [where d = ?d and file_path = "''app/x.ts''"
        and raw = "''let a = 1;''" and line_num = 500 and xs = "[(1, ''a'', ''_a'')]"
        and old_var = "''b''" and new_var = "''_b''" and ys = "[]"]
      stale_reference_no_edit [where line_num = 0 and lines = "[''let a = 1;'']"
        and us = "[]" and var = "''a''" and vs = "[(1, ''a'')]"]
    by blast
qed

text \<open>
  The scripts keep no record of such a diagnostic. On a file of 80 lines the run for
  a diagnostic at line 500 prints the count of diagnostics and the count of files
  written, and so does the run for a diagnostic at line 5 that matches nothing: the
  output is the same, and it has no place for a stale note.
\<close>

theorem stale_reference_not_recorded:
  "length (file_lines (concat (replicate 79 (''x;'' @ [LF])) @ ''x;'')) = 80
   \<and> fix_ts_errors [''app/x.ts'' \<mapsto> concat (replicate 79 (''x;'' @ [LF])) @ ''x;'']
         [(''app/x.ts'', [(500, ''user'', ''_user'')])]
       = ([''app/x.ts'' \<mapsto> concat (replicate 79 (''x;'' @ [LF])) @ ''x;''], [Found 1, Fixed 0])
   \<and> fix_ts_errors [''app/x.ts'' \<mapsto> concat (replicate 79 (''x;'' @ [LF])) @ ''x;'']
         [(''app/x.ts'', [(5, ''user'', ''_user'')])]
       = ([''app/x.ts'' \<mapsto> concat (replicate 79 (''x;'' @ [LF])) @ ''x;''], [Found 1, Fixed 0])"
proof -
  let ?raw = "concat (replicate 79 (''x;'' @ [LF])) @ ''x;''"
  let ?d = "[''app/x.ts'' \<mapsto> ?raw]"
  have n: "length (file_lines ?raw) = 80" by code_simp
  have l: "?d ''app/x.ts'' = Some ?raw" by simp
  have r: "read_text ?raw = ?raw" by code_simp
  have a: "ts_errors_new_content ?raw [(500, ''user'', ''_user'')] = ?raw" by code_simp
  have b: "ts_errors_new_content ?raw [(5, ''user'', ''_user'')] = ?raw" by code_simp
  have fa: "ts_errors_file ?d (''app/x.ts'', [(500, ''user'', ''_user'')]) = (?d, False)"
    unfolding ts_errors_file_def prod.case l option.case r Let_def a by simp
  have fb: "ts_errors_file ?d (''app/x.ts'', [(5, ''user'', ''_user'')]) = (?d, False)"
    unfolding ts_errors_file_def prod.case l option.case r Let_def b by simp
  have ra: "fix_ts_errors ?d [(''app/x.ts'', [(500, ''user'', ''_user'')])] = (?d, [Found 1, Fixed 0])"
    unfolding fix_ts_errors_def ts_errors_loop.simps fa by simp
  have rb: "fix_ts_errors ?d [(''app/x.ts'', [(5, ''user'', ''_user'')])] = (?d, [Found 1, Fixed 0])"
    unfolding fix_ts_errors_def ts_errors_loop.simps fb by simp
  show ?thesis using n ra rb by blast
qed



text \<open>
  The guarded write of \<open>fix-ts-errors.py\<close>: when no line changes in memory, the disk
  is not written.
\<close>

lemma ts_errors_file_noop:
  assumes "d file_path = Some raw"
    and "ts_errors_apply (file_lines raw) issues = file_lines raw"
  shows "ts_errors_file d (file_path, issues) = (d, False)"
  using assms
  by (simp add: ts_errors_file_def ts_errors_new_content_def file_lines_def str_join_split)

text \<open>
  C3. \<open>fix-unused-vars.py\<close> writes the file whether or not a line changed. For a
  file with \<open>\r\n\<close> line ends and a diagnostic whose identifier is not on its line,
  no line changes in memory, yet the file is written back with \<open>\n\<close> line ends;
  \<open>fix-ts-errors.py\<close>, which compares before it writes, leaves the same file alone.
\<close>

theorem unused_vars_rewrites_unchanged_file:
  "unused_vars_apply (file_lines (''let x = 1;'' @ [CR, LF] @ ''x++;'')) [(1, ''tmp'')]
     = file_lines (''let x = 1;'' @ [CR, LF] @ ''x++;'')
   \<and> unused_vars_file [''a.ts'' \<mapsto> ''let x = 1;'' @ [CR, LF] @ ''x++;''] (''a.ts'', [(1, ''tmp'')])
     = ([''a.ts'' \<mapsto> ''let x = 1;'' @ [LF] @ ''x++;''], True)
   \<and> ''let x = 1;'' @ [LF] @ ''x++;'' \<noteq> ''let x = 1;'' @ [CR, LF] @ ''x++;''
   \<and> ts_errors_file [''a.ts'' \<mapsto> ''let x = 1;'' @ [CR, LF] @ ''x++;'']
         (''a.ts'', [(1, ''tmp'', ''_tmp'')])
     = ([''a.ts'' \<mapsto> ''let x = 1;'' @ [CR, LF] @ ''x++;''], False)"
proof -
  let ?raw = "''let x = 1;'' @ [CR, LF] @ ''x++;''"
  let ?d = "[''a.ts'' \<mapsto> ?raw]"
  have l: "?d ''a.ts'' = Some ?raw" by simp
  have a: "unused_vars_apply (file_lines ?raw) [(1, ''tmp'')] = file_lines ?raw" by code_simp
  have r: "read_text ?raw = ''let x = 1;'' @ [LF] @ ''x++;''" by code_simp
  have j: "str_join LF (unused_vars_apply (str_split LF (''let x = 1;'' @ [LF] @ ''x++;'')) [(1, ''tmp'')])
             = ''let x = 1;'' @ [LF] @ ''x++;''"
    by code_simp
  have u: "unused_vars_file ?d (''a.ts'', [(1, ''tmp'')])
             = ([''a.ts'' \<mapsto> ''let x = 1;'' @ [LF] @ ''x++;''], True)"
    unfolding unused_vars_file_def prod.case l option.case r Let_def j write_text_def
    by simp
  have n: "ts_errors_new_content (''let x = 1;'' @ [LF] @ ''x++;'') [(1, ''tmp'', ''_tmp'')]
             = ''let x = 1;'' @ [LF] @ ''x++;''"
    by code_simp
  have t: "ts_errors_file ?d (''a.ts'', [(1, ''tmp'', ''_tmp'')]) = (?d, False)"
    unfolding ts_errors_file_def prod.case l option.case r Let_def n by simp
  have ne: "''let x = 1;'' @ [LF] @ ''x++;'' \<noteq> ?raw" by simp
  show ?thesis using a u ne t by blast
qed

section \<open>The claim about overlapping edits\<close>

lemma str_replace_absent: "\<not> contains old s \<Longrightarrow> str_replace old new s = s"
proof (induction old new s rule: str_replace.induct)
  case (1 old new)
  then show ?case by simp
next
  case (2 old new c cs)
  from "2.prems" have ne: "old \<noteq> []"
    by (auto simp: starts_with_def)
  from "2.prems" have "\<not> starts_with old (c # cs)" "\<not> contains old cs" by simp_all
  then show ?case using ne "2.IH"(3) by simp
qed

text \<open>
  C5. The scripts detect no conflicts. Two changes collected for the same line of a
  file are both applied, the second to the output of the first, in the order in
  which the diagnostics were collected; nothing is rejected and nothing is reported.
\<close>

theorem overlapping_edits_both_applied:
  assumes "1 \<le> line_num" "line_num \<le> int (length lines)"
  shows "batch7_apply (lines, modified) [(line_num, old1, new1), (line_num, old2, new2)]
           = (lines[nat (line_num - 1) :=
                      str_replace old2 new2 (str_replace old1 new1 (lines ! nat (line_num - 1)))],
              True)
         \<and> fst (massive_apply (lines, modified) [(line_num, old1, new1), (line_num, old2, new2)])
           = lines[nat (line_num - 1) :=
                     str_replace old2 new2 (str_replace old1 new1 (lines ! nat (line_num - 1)))]"
proof -
  let ?i = "nat (line_num - 1)"
  let ?l = "lines ! ?i"
  have i: "?i < length lines" "0 \<le> line_num - 1" "line_num - 1 < int (length lines)"
    using assms by auto
  have b: "batch7_apply (lines, modified) [(line_num, old1, new1), (line_num, old2, new2)]
        = (lines[?i := str_replace old2 new2 (str_replace old1 new1 ?l)], True)"
    using i by (simp add: Let_def)
  have r1: "(if contains old1 ?l then str_replace old1 new1 ?l else ?l) = str_replace old1 new1 ?l"
    by (simp add: str_replace_absent)
  have r2: "(if contains old2 s then str_replace old2 new2 s else s) = str_replace old2 new2 s" for s
    by (simp add: str_replace_absent)
  have m: "fst (massive_apply (lines, modified) [(line_num, old1, new1), (line_num, old2, new2)])
        = lines[?i := str_replace old2 new2 (str_replace old1 new1 ?l)]"
  proof (cases "contains old1 ?l")
    case True
    then show ?thesis using i r2 [of "str_replace old1 new1 ?l"]
      by (cases "contains old2 (str_replace old1 new1 ?l)") (simp_all add: Let_def)
  next
    case False
    then have "str_replace old1 new1 ?l = ?l" by (rule str_replace_absent)
    then show ?thesis using False i r2 [of ?l]
      by (cases "contains old2 ?l") (simp_all add: Let_def)
  qed
  show ?thesis using b m by simp
qed

theorem overlapping_edits_both_applied_witness:
  "(1::int) \<le> 1 \<and> (1::int) \<le> int (length [''logger._error(error);''])
   \<and> batch7_apply ([''logger._error(error);''], False)
         [(1, ''logger._error'', ''logger.error''), (1, ''error'', ''_error'')]
       = ([''logger._error(_error);''], True)"
proof -
  have h1: "(1::int) \<le> 1" by simp
  have h2: "(1::int) \<le> int (length [''logger._error(error);''])" by simp
  have v: "str_replace ''error'' ''_error'' (str_replace ''logger._error'' ''logger.error'' ''logger._error(error);'')
             = ''logger._error(_error);''"
    by code_simp
  show ?thesis
    using h1 h2 v
      overlapping_edits_both_applied [OF h1 h2, where modified = False
        and ?old1.0 = "''logger._error''" and ?new1.0 = "''logger.error''"
        and ?old2.0 = "''error''" and ?new2.0 = "''_error''"]
    by simp
qed

text \<open>
  Two diagnostics on line 1 in \<open>fix-massive-batch.py\<close>: the result carries both
  replacements and differs from the result of either change alone.
\<close>

theorem conflicting_edits_both_applied:
  "massive_apply ([''x.from(y)._error''], False)
       [(1, ''_error'', ''error''), (1, ''.from'', '' as any).from'')]
     = ([''x as any).from(y).error''], True)
   \<and> massive_apply ([''x.from(y)._error''], False) [(1, ''_error'', ''error'')]
     = ([''x.from(y).error''], True)
   \<and> massive_apply ([''x.from(y)._error''], False) [(1, ''.from'', '' as any).from'')]
     = ([''x as any).from(y)._error''], True)
   \<and> ''x as any).from(y).error'' \<noteq> ''x.from(y).error''
   \<and> ''x as any).from(y).error'' \<noteq> ''x as any).from(y)._error''"
  by code_simp

section \<open>The claim about rules that look at other lines\<close>

lemma lookahead_stop:
  "\<not> (j < length lines \<and> j < i + w) \<Longrightarrow> lookahead w m e i j lines = (lines, False)"
  by (subst lookahead.simps) auto

lemma lookahead_length:
  "length (fst (lookahead w m e i j lines)) = length lines"
proof (induction w m e i j lines rule: lookahead.induct)
  case (1 w m e i j lines)
  then show ?case by (subst lookahead.simps) simp
qed

lemma lookahead_window:
  "fst (lookahead w m e i j lines) ! k \<noteq> lines ! k \<Longrightarrow> j \<le> k \<and> k < i + w \<and> k < length lines"
proof (induction w m e i j lines rule: lookahead.induct)
  case (1 w m e i j lines)
  show ?case
  proof (cases "j < length lines \<and> j < i + w")
    case False
    then have "lookahead w m e i j lines = (lines, False)"
      by (rule lookahead_stop)
    then show ?thesis using "1.prems" by simp
  next
    case True
    show ?thesis
    proof (cases "m (lines ! j)")
      case found: True
      then have "lookahead w m e i j lines = (lines[j := e (lines ! j)], True)"
        using True by (subst lookahead.simps) simp
      then have "k = j" using "1.prems" by (cases "k = j") simp_all
      then show ?thesis using True by simp
    next
      case nf: False
      then have "lookahead w m e i j lines = lookahead w m e i (j + 1) lines"
        using True by (subst lookahead.simps) simp
      then have "j + 1 \<le> k \<and> k < i + w \<and> k < length lines"
        using "1.IH" [OF True nf] "1.prems" by simp
      then show ?thesis by simp
    qed
  qed
qed

lemma lookahead_found:
  "snd (lookahead w m e i j lines)
     = (\<exists>k. j \<le> k \<and> k < i + w \<and> k < length lines \<and> m (lines ! k))"
proof (induction w m e i j lines rule: lookahead.induct)
  case (1 w m e i j lines)
  show ?case
  proof (cases "j < length lines \<and> j < i + w")
    case False
    then have "lookahead w m e i j lines = (lines, False)"
      by (rule lookahead_stop)
    moreover have "\<not> (\<exists>k. j \<le> k \<and> k < i + w \<and> k < length lines \<and> m (lines ! k))"
      using False by auto
    ultimately show ?thesis by simp
  next
    case True
    show ?thesis
    proof (cases "m (lines ! j)")
      case found: True
      then have "lookahead w m e i j lines = (lines[j := e (lines ! j)], True)"
        using True by (subst lookahead.simps) simp
      then show ?thesis using True found by auto
    next
      case nf: False
      then have "lookahead w m e i j lines = lookahead w m e i (j + 1) lines"
        using True by (subst lookahead.simps) simp
      then have "snd (lookahead w m e i j lines)
          = (\<exists>k. j + 1 \<le> k \<and> k < i + w \<and> k < length lines \<and> m (lines ! k))"
        using "1.IH" [OF True nf] by simp
      also have "\<dots> = (\<exists>k. j \<le> k \<and> k < i + w \<and> k < length lines \<and> m (lines ! k))"
        using nf by (metis Suc_eq_plus1 Suc_leD Suc_leI le_neq_implies_less)
      finally show ?thesis .
    qed
  qed
qed

lemma lookahead_not_found:
  "\<not> snd (lookahead w m e i j lines) \<Longrightarrow> lookahead w m e i j lines = (lines, False)"
proof (induction w m e i j lines rule: lookahead.induct)
  case (1 w m e i j lines)
  show ?case
  proof (cases "j < length lines \<and> j < i + w")
    case False
    then show ?thesis by (rule lookahead_stop)
  next
    case True
    show ?thesis
    proof (cases "m (lines ! j)")
      case found: True
      then have "lookahead w m e i j lines = (lines[j := e (lines ! j)], True)"
        using True by (subst lookahead.simps) simp
      then show ?thesis using "1.prems" by simp
    next
      case nf: False
      then have eq: "lookahead w m e i j lines = lookahead w m e i (j + 1) lines"
        using True by (subst lookahead.simps) simp
      then show ?thesis using "1.IH" [OF True nf] "1.prems" by simp
    qed
  qed
qed

lemma fold_fixed_state:
  "(\<And>i. i \<in> set xs \<Longrightarrow> step i st = st) \<Longrightarrow> fold step xs st = st"
  by (induction xs) simp_all


lemma paren_lookahead_found:
  "snd (paren_lookahead i lines)
     = (\<exists>j. i < j \<and> j < i + 20 \<and> j < length lines \<and> ends_statement (lines ! j))"
  unfolding paren_lookahead_def lookahead_found by (simp add: Suc_le_eq)

lemma rpc_lookahead_found:
  "snd (rpc_lookahead i lines)
     = (\<exists>j. i < j \<and> j < i + 10 \<and> j < length lines \<and> strip (lines ! j) = ''}));'')"
  unfolding rpc_lookahead_def lookahead_found by (simp add: Suc_le_eq)

lemma paren_step_length: "length (fst (paren_step i (lines, modified))) = length lines"
proof (cases "paren_trigger (lines ! i)")
  case True
  obtain ls found where l: "paren_lookahead i lines = (ls, found)"
    by (cases "paren_lookahead i lines")
  then have "length ls = length lines"
    using lookahead_length [of 20 ends_statement close_paren i "i + 1" lines]
    by (simp add: paren_lookahead_def)
  then show ?thesis using True l by (simp add: paren_step_def)
next
  case False
  then show ?thesis by (simp add: paren_step_def)
qed

lemma paren_step_window:
  assumes "fst (paren_step i (lines, modified)) ! k \<noteq> lines ! k"
  shows "i < k \<and> k < i + 20"
proof (cases "paren_trigger (lines ! i)")
  case True
  obtain ls found where l: "paren_lookahead i lines = (ls, found)"
    by (cases "paren_lookahead i lines")
  then have "ls ! k \<noteq> lines ! k" using assms True by (simp add: paren_step_def)
  then have "i + 1 \<le> k \<and> k < i + 20 \<and> k < length lines"
    using lookahead_window [of 20 ends_statement close_paren i "i + 1" lines k] l
    by (simp add: paren_lookahead_def)
  then show ?thesis by simp
next
  case False
  then show ?thesis using assms by (simp add: paren_step_def)
qed

lemma paren_step_closed:
  assumes "\<forall>j. i < j \<and> j < i + 20 \<and> j < length lines \<longrightarrow> \<not> ends_statement (lines ! j)"
  shows "paren_step i (lines, modified) = (lines, modified)"
proof (cases "paren_trigger (lines ! i)")
  case True
  have "\<not> snd (paren_lookahead i lines)" using assms by (simp add: paren_lookahead_found)
  then have "paren_lookahead i lines = (lines, False)"
    unfolding paren_lookahead_def by (rule lookahead_not_found)
  then show ?thesis using True by (simp add: paren_step_def)
next
  case False
  then show ?thesis by (simp add: paren_step_def)
qed

lemma fix_parentheses_file_closed:
  assumes "d file_path = Some raw"
    and "\<forall>i < length (file_lines raw). paren_trigger (file_lines raw ! i) \<longrightarrow>
           (\<forall>j. i < j \<and> j < i + 20 \<and> j < length (file_lines raw)
                  \<longrightarrow> \<not> ends_statement (file_lines raw ! j))"
  shows "fix_parentheses_file d file_path = d"
proof -
  let ?L = "file_lines raw"
  have "paren_step i (?L, False) = (?L, False)" if "i \<in> set [0..<length ?L]" for i
  proof (cases "paren_trigger (?L ! i)")
    case True
    then show ?thesis using assms(2) that paren_step_closed [of i ?L False] by simp
  next
    case False
    then show ?thesis by (simp add: paren_step_def)
  qed
  then have "fix_parentheses_lines ?L = (?L, False)"
    unfolding fix_parentheses_lines_def by (rule fold_fixed_state)
  then show ?thesis using assms(1) by (simp add: fix_parentheses_file_def file_lines_def)
qed

lemma supabase_step_cases:
  obtains (neither) "supabase_step i (lines, modified) = (lines, modified)"
  | (first) "i + 1 < length lines" "contains ''as any).from'' (lines ! (i + 1))"
      "supabase_step i (lines, modified)
         = ((lines[i := str_replace ''await supabase'' ''await (supabase as any)'' (lines ! i)])
              [i + 1 := str_replace ''as any).from'' ''.from'' (lines ! (i + 1))], True)"
  | (rpc) ls found st1 where
      "st1 = (lines, modified) \<or>
       (i + 1 < length lines \<and> contains ''as any).from'' (lines ! (i + 1)) \<and>
        st1 = ((lines[i := str_replace ''await supabase'' ''await (supabase as any)'' (lines ! i)])
                 [i + 1 := str_replace ''as any).from'' ''.from'' (lines ! (i + 1))], True))"
      "rpc_lookahead i (fst st1) = (ls, found)"
      "supabase_step i (lines, modified) = (ls, if found then True else snd st1)"
proof -
  let ?c1 = "contains ''await supabase'' (lines ! i) \<and> i + 1 < length lines
               \<and> contains ''as any).from'' (lines ! (i + 1))"
  let ?upd = "((lines[i := str_replace ''await supabase'' ''await (supabase as any)'' (lines ! i)])
                 [i + 1 := str_replace ''as any).from'' ''.from'' (lines ! (i + 1))], True)"
  let ?st1 = "if ?c1 then ?upd else (lines, modified)"
  show thesis
  proof (cases "contains ''await (supabase as any).rpc'' (lines ! i)")
    case False
    then have eq: "supabase_step i (lines, modified) = ?st1"
      by (simp add: supabase_step_def Let_def)
    show ?thesis
    proof (cases ?c1)
      case True
      then show ?thesis using eq first by simp
    next
      case nc: False
      then show ?thesis using eq neither by auto
    qed
  next
    case True
    obtain ls found where l: "rpc_lookahead i (fst ?st1) = (ls, found)"
      by (cases "rpc_lookahead i (fst ?st1)")
    have "supabase_step i (lines, modified) = (ls, if found then True else snd ?st1)"
      using True l by (simp add: supabase_step_def Let_def)
    moreover have "?st1 = (lines, modified) \<or>
       (i + 1 < length lines \<and> contains ''as any).from'' (lines ! (i + 1)) \<and> ?st1 = ?upd)"
      by auto
    ultimately show ?thesis using rpc [of ?st1 ls found] l by blast
  qed
qed


lemma rpc_lookahead_length: "length (fst (rpc_lookahead i lines)) = length lines"
  unfolding rpc_lookahead_def by (rule lookahead_length)

lemma rpc_lookahead_window:
  assumes "fst (rpc_lookahead i lines) ! k \<noteq> lines ! k"
  shows "i < k \<and> k < i + 10"
proof -
  have "i + 1 \<le> k \<and> k < i + 10 \<and> k < length lines"
    using assms unfolding rpc_lookahead_def by (rule lookahead_window)
  then show ?thesis by simp
qed

lemma supabase_step_length: "length (fst (supabase_step i (lines, modified))) = length lines"
proof (cases i lines modified rule: supabase_step_cases)
  case neither
  then show ?thesis by simp
next
  case first
  then show ?thesis by simp
next
  case (rpc ls found st1)
  have "length ls = length (fst st1)"
    using rpc_lookahead_length [of i "fst st1"] rpc(2) by simp
  moreover have "length (fst st1) = length lines" using rpc(1) by auto
  ultimately show ?thesis using rpc(3) by simp
qed

lemma supabase_step_window:
  assumes "fst (supabase_step i (lines, modified)) ! k \<noteq> lines ! k"
  shows "i \<le> k \<and> k < i + 10"
proof (cases i lines modified rule: supabase_step_cases)
  case neither
  then show ?thesis using assms by simp
next
  case first
  have "k = i \<or> k = i + 1"
  proof (rule ccontr)
    assume "\<not> (k = i \<or> k = i + 1)"
    then show False using assms first(3) by simp
  qed
  then show ?thesis by auto
next
  case (rpc ls found st1)
  show ?thesis
  proof (cases "ls ! k = fst st1 ! k")
    case False
    then have "i < k \<and> k < i + 10"
      using rpc_lookahead_window [of i "fst st1" k] rpc(2) by simp
    then show ?thesis by simp
  next
    case True
    then have ne: "fst st1 ! k \<noteq> lines ! k" using assms rpc(3) by simp
    have "k = i \<or> k = i + 1"
    proof (rule ccontr)
      assume "\<not> (k = i \<or> k = i + 1)"
      then show False using ne rpc(1) by auto
    qed
    then show ?thesis by auto
  qed
qed

lemma supabase_step_closed:
  assumes "\<not> (i + 1 < length lines \<and> contains ''as any).from'' (lines ! (i + 1)))"
    and "\<forall>j. i < j \<and> j < i + 10 \<and> j < length lines \<longrightarrow> strip (lines ! j) \<noteq> ''}));''"
  shows "supabase_step i (lines, modified) = (lines, modified)"
proof (cases i lines modified rule: supabase_step_cases)
  case neither
  then show ?thesis .
next
  case first
  then show ?thesis using assms(1) by simp
next
  case (rpc ls found st1)
  have st1: "st1 = (lines, modified)" using rpc(1) assms(1) by auto
  have "\<not> snd (rpc_lookahead i lines)" using assms(2) by (simp add: rpc_lookahead_found)
  then have "rpc_lookahead i lines = (lines, False)"
    unfolding rpc_lookahead_def by (rule lookahead_not_found)
  then show ?thesis using rpc(2,3) st1 by simp
qed

lemma lte_step_window:
  "fst (lte_step i (lines, modified)) ! k \<noteq> lines ! k \<Longrightarrow> k = i"
  by (cases "k = i") (auto simp: lte_step_def Let_def split: if_splits)

lemma lte_step_closed:
  "i = 0 \<or> \<not> contains ''gte'' (lines ! (i - 1)) \<Longrightarrow>
   lte_step i (lines, modified) = (lines, modified)"
  by (auto simp: lte_step_def Let_def)

text \<open>The three rules with a window, together.\<close>

lemma windowed_rules_fail_closed:
  "length (fst (paren_step i (lines, modified))) = length lines
   \<and> (\<forall>k. fst (paren_step i (lines, modified)) ! k \<noteq> lines ! k \<longrightarrow> i < k \<and> k < i + 20)
   \<and> snd (paren_lookahead i lines)
       = (\<exists>j. i < j \<and> j < i + 20 \<and> j < length lines \<and> ends_statement (lines ! j))
   \<and> ((\<forall>j. i < j \<and> j < i + 20 \<and> j < length lines \<longrightarrow> \<not> ends_statement (lines ! j))
        \<longrightarrow> paren_step i (lines, modified) = (lines, modified))
   \<and> (d file_path = Some raw
        \<and> (\<forall>i < length (file_lines raw). paren_trigger (file_lines raw ! i) \<longrightarrow>
              (\<forall>j. i < j \<and> j < i + 20 \<and> j < length (file_lines raw)
                     \<longrightarrow> \<not> ends_statement (file_lines raw ! j)))
        \<longrightarrow> fix_parentheses_file d file_path = d)
   \<and> length (fst (supabase_step i (lines, modified))) = length lines
   \<and> (\<forall>k. fst (supabase_step i (lines, modified)) ! k \<noteq> lines ! k \<longrightarrow> i \<le> k \<and> k < i + 10)
   \<and> snd (rpc_lookahead i lines)
       = (\<exists>j. i < j \<and> j < i + 10 \<and> j < length lines \<and> strip (lines ! j) = ''}));'')
   \<and> (\<not> (i + 1 < length lines \<and> contains ''as any).from'' (lines ! (i + 1)))
        \<and> (\<forall>j. i < j \<and> j < i + 10 \<and> j < length lines \<longrightarrow> strip (lines ! j) \<noteq> ''}));'')
        \<longrightarrow> supabase_step i (lines, modified) = (lines, modified))
   \<and> (\<forall>k. fst (lte_step i (lines, modified)) ! k \<noteq> lines ! k \<longrightarrow> k = i)
   \<and> (i = 0 \<or> \<not> contains ''gte'' (lines ! (i - 1))
        \<longrightarrow> lte_step i (lines, modified) = (lines, modified))"
  using paren_step_length [of i lines modified] paren_step_window [of i lines modified]
    paren_lookahead_found [of i lines] paren_step_closed [of i lines modified]
    fix_parentheses_file_closed [of d file_path raw]
    supabase_step_length [of i lines modified] supabase_step_window [of i lines modified]
    rpc_lookahead_found [of i lines] supabase_step_closed [of i lines modified]
    lte_step_window [of i lines modified] lte_step_closed [of i lines modified]
  by (intro conjI impI allI) blast+


subsection \<open>The scan of \<open>fix-logger-imports.py\<close>\<close>

lemma last_import_none:
  "\<forall>l \<in> set lines. \<not> starts_with ''import'' l \<Longrightarrow> last_import idx i lines = idx"
  by (induction lines arbitrary: idx i) simp_all

lemma last_import_last:
  assumes "k < length lines" "starts_with ''import'' (lines ! k)"
    and "\<forall>j. k < j \<and> j < length lines \<longrightarrow> \<not> starts_with ''import'' (lines ! j)"
  shows "last_import idx i lines = int (i + k)"
  using assms
proof (induction lines arbitrary: idx i k)
  case Nil
  then show ?case by simp
next
  case (Cons l lines)
  show ?case
  proof (cases k)
    case 0
    have "\<forall>x \<in> set lines. \<not> starts_with ''import'' x"
    proof
      fix x assume "x \<in> set lines"
      then obtain j where j: "j < length lines" "lines ! j = x" by (auto simp: in_set_conv_nth)
      then have "\<not> starts_with ''import'' ((l # lines) ! Suc j)"
        using Cons.prems(3) 0 by (metis Suc_less_eq length_Cons zero_less_Suc)
      then show "\<not> starts_with ''import'' x" using j by simp
    qed
    then have "last_import (int i) (i + 1) lines = int i" by (rule last_import_none)
    then show ?thesis using 0 Cons.prems(2) by simp
  next
    case (Suc k')
    have a: "k' < length lines" "starts_with ''import'' (lines ! k')"
      using Cons.prems(1,2) Suc by simp_all
    have b: "\<forall>j. k' < j \<and> j < length lines \<longrightarrow> \<not> starts_with ''import'' (lines ! j)"
    proof (intro allI impI)
      fix j assume "k' < j \<and> j < length lines"
      then have "k < Suc j \<and> Suc j < length (l # lines)" using Suc by simp
      then have "\<not> starts_with ''import'' ((l # lines) ! Suc j)" using Cons.prems(3) by blast
      then show "\<not> starts_with ''import'' (lines ! j)" by simp
    qed
    have "last_import (if starts_with ''import'' l then int i else idx) (i + 1) lines
            = int (i + 1 + k')"
      by (rule Cons.IH [OF a b])
    then show ?thesis using Suc by simp
  qed
qed

lemma logger_imports_file_closed:
  assumes "d file_path = Some raw"
    and "\<forall>l \<in> set (file_lines raw). \<not> starts_with ''import'' l"
  shows "logger_imports_file d file_path = d"
proof -
  have "last_import (- 1) 0 (str_split LF (read_text raw)) = - 1"
    using assms(2) unfolding file_lines_def by (rule last_import_none)
  then show ?thesis using assms(1) by (simp add: logger_imports_file_def Let_def)
qed

lemma logger_imports_file_inserts:
  assumes "d file_path = Some raw"
    and "\<not> contains ''import.*logger'' (read_text raw)"
        "\<not> contains ''from.*logger'' (read_text raw)"
    and "k < length (file_lines raw)" "starts_with ''import'' (file_lines raw ! k)"
    and "\<forall>j. k < j \<and> j < length (file_lines raw)
            \<longrightarrow> \<not> starts_with ''import'' (file_lines raw ! j)"
  shows "logger_imports_file d file_path
           = d(file_path \<mapsto> write_text (str_join LF
                 (take (k + 1) (file_lines raw) @ logger_import # drop (k + 1) (file_lines raw))))"
proof -
  let ?L = "file_lines raw"
  have idx: "last_import (- 1) 0 ?L = int k"
    using last_import_last [OF assms(4,5,6), of "- 1" 0] by simp
  have "list_insert (int k + 1) logger_import ?L = take (k + 1) ?L @ logger_import # drop (k + 1) ?L"
  proof -
    have "min (int k + 1) (int (length ?L)) = int (k + 1)" using assms(4) by simp
    then show ?thesis by (simp add: list_insert_def Let_def nat_add_distrib)
  qed
  then show ?thesis
    using assms(1,2,3) idx by (simp add: logger_imports_file_def Let_def file_lines_def)
qed


text \<open>
  C8. The rules of \<open>fix-parentheses.py\<close>, \<open>fix-all-supabase-patterns.py\<close> and
  \<open>fix-all-lte.py\<close> stay within 20 lines of the line that triggers them and fail
  closed. In \<open>fix-parentheses.py\<close> the loop looks at the lines \<open>i + 1\<close> to
  \<open>i + 19\<close>: it finds the marker exactly when one of them ends a statement, it edits
  no line outside that window, and when none of them ends a statement the lines and
  the flag are returned as they were, so that a file none of whose trigger lines finds
  its marker is not written. In \<open>fix-all-supabase-patterns.py\<close> the window is the
  lines \<open>i\<close> to \<open>i + 9\<close>, with the same properties. In \<open>fix-all-lte.py\<close> the rule
  looks at line \<open>i - 1\<close>, edits line \<open>i\<close> only, and does nothing when the marker is
  not there. \<open>fix-logger-imports.py\<close> has no window: it goes over every line of the
  file, finds the last line that starts with \<open>import\<close> at whatever index \<open>n\<close> it
  is, and inserts its line right after it; it fails closed as well, leaving the file
  as it is when no line starts with \<open>import\<close>.
\<close>

theorem lookahead_rules_fail_closed:
  "length (fst (paren_step i (lines, modified))) = length lines
   \<and> (\<forall>k. fst (paren_step i (lines, modified)) ! k \<noteq> lines ! k \<longrightarrow> i < k \<and> k < i + 20)
   \<and> snd (paren_lookahead i lines)
       = (\<exists>j. i < j \<and> j < i + 20 \<and> j < length lines \<and> ends_statement (lines ! j))
   \<and> ((\<forall>j. i < j \<and> j < i + 20 \<and> j < length lines \<longrightarrow> \<not> ends_statement (lines ! j))
        \<longrightarrow> paren_step i (lines, modified) = (lines, modified))
   \<and> (d file_path = Some raw
        \<and> (\<forall>i < length (file_lines raw). paren_trigger (file_lines raw ! i) \<longrightarrow>
              (\<forall>j. i < j \<and> j < i + 20 \<and> j < length (file_lines raw)
                     \<longrightarrow> \<not> ends_statement (file_lines raw ! j)))
        \<longrightarrow> fix_parentheses_file d file_path = d)
   \<and> length (fst (supabase_step i (lines, modified))) = length lines
   \<and> (\<forall>k. fst (supabase_step i (lines, modified)) ! k \<noteq> lines ! k \<longrightarrow> i \<le> k \<and> k < i + 10)
   \<and> snd (rpc_lookahead i lines)
       = (\<exists>j. i < j \<and> j < i + 10 \<and> j < length lines \<and> strip (lines ! j) = ''}));'')
   \<and> (\<not> (i + 1 < length lines \<and> contains ''as any).from'' (lines ! (i + 1)))
        \<and> (\<forall>j. i < j \<and> j < i + 10 \<and> j < length lines \<longrightarrow> strip (lines ! j) \<noteq> ''}));'')
        \<longrightarrow> supabase_step i (lines, modified) = (lines, modified))
   \<and> (\<forall>k. fst (lte_step i (lines, modified)) ! k \<noteq> lines ! k \<longrightarrow> k = i)
   \<and> (i = 0 \<or> \<not> contains ''gte'' (lines ! (i - 1))
        \<longrightarrow> lte_step i (lines, modified) = (lines, modified))
   \<and> ((\<forall>l \<in> set lines. \<not> starts_with ''import'' l) \<longrightarrow> last_import (- 1) 0 lines = - 1)
   \<and> (n < length lines \<and> starts_with ''import'' (lines ! n)
        \<and> (\<forall>j. n < j \<and> j < length lines \<longrightarrow> \<not> starts_with ''import'' (lines ! j))
        \<longrightarrow> last_import (- 1) 0 lines = int n)
   \<and> (d file_path = Some raw \<and> (\<forall>l \<in> set (file_lines raw). \<not> starts_with ''import'' l)
        \<longrightarrow> logger_imports_file d file_path = d)
   \<and> (d file_path = Some raw
        \<and> \<not> contains ''import.*logger'' (read_text raw)
        \<and> \<not> contains ''from.*logger'' (read_text raw)
        \<and> n < length (file_lines raw) \<and> starts_with ''import'' (file_lines raw ! n)
        \<and> (\<forall>j. n < j \<and> j < length (file_lines raw)
                \<longrightarrow> \<not> starts_with ''import'' (file_lines raw ! j))
        \<longrightarrow> logger_imports_file d file_path
              = d(file_path \<mapsto> write_text (str_join LF
                    (take (n + 1) (file_lines raw) @ logger_import
                       # drop (n + 1) (file_lines raw)))))"
proof -
  have a: "(\<forall>l \<in> set lines. \<not> starts_with ''import'' l) \<longrightarrow> last_import (- 1) 0 lines = - 1"
    using last_import_none [of lines "- 1" 0] by blast
  have b: "n < length lines \<and> starts_with ''import'' (lines ! n)
        \<and> (\<forall>j. n < j \<and> j < length lines \<longrightarrow> \<not> starts_with ''import'' (lines ! j))
        \<longrightarrow> last_import (- 1) 0 lines = int n"
    using last_import_last [of n lines "- 1" 0] by simp
  have c: "d file_path = Some raw \<and> (\<forall>l \<in> set (file_lines raw). \<not> starts_with ''import'' l)
        \<longrightarrow> logger_imports_file d file_path = d"
    using logger_imports_file_closed [of d file_path raw] by blast
  have e: "d file_path = Some raw
        \<and> \<not> contains ''import.*logger'' (read_text raw)
        \<and> \<not> contains ''from.*logger'' (read_text raw)
        \<and> n < length (file_lines raw) \<and> starts_with ''import'' (file_lines raw ! n)
        \<and> (\<forall>j. n < j \<and> j < length (file_lines raw)
                \<longrightarrow> \<not> starts_with ''import'' (file_lines raw ! j))
        \<longrightarrow> logger_imports_file d file_path
              = d(file_path \<mapsto> write_text (str_join LF
                    (take (n + 1) (file_lines raw) @ logger_import
                       # drop (n + 1) (file_lines raw))))"
    using logger_imports_file_inserts [of d file_path raw n] by blast
  note w = windowed_rules_fail_closed [of i lines modified d file_path raw]
  show ?thesis
    apply (intro conjI)
    using w apply blast
    using w apply blast
    using w apply blast
    using w apply blast
    using w apply blast
    using w apply blast
    using w apply blast
    using w apply blast
    using w apply blast
    using w apply blast
    using w apply blast
    using a apply blast
    using b apply blast
    using c apply blast
    using e apply blast
    done
qed


theorem lookahead_rules_fail_closed_witness:
  "paren_trigger ([''const r = await (db as any).from(t)'', ''  .select(x)'', ''  .eq(id, 1)''] ! 0)
   \<and> \<not> ends_statement ''  .select(x)'' \<and> \<not> ends_statement ''  .eq(id, 1)''
   \<and> paren_step 0 ([''const r = await (db as any).from(t)'', ''  .select(x)'', ''  .eq(id, 1)''], False)
       = ([''const r = await (db as any).from(t)'', ''  .select(x)'', ''  .eq(id, 1)''], False)
   \<and> paren_step 0 ([''const r = await (db as any).from(t)'', ''  .select(x)'', ''  .eq(id, 1); ''], False)
       = ([''const r = await (db as any).from(t)'', ''  .select(x)'', ''  .eq(id, 1));''], True)
   \<and> starts_with ''import'' ([''import a from b;'', ''f();''] ! 0)
   \<and> \<not> starts_with ''import'' ''f();''
   \<and> last_import (- 1) 0 [''import a from b;'', ''f();''] = 0
   \<and> last_import (- 1) 0 [''f();''] = - 1"
proof -
  let ?L = "[''const r = await (db as any).from(t)'', ''  .select(x)'', ''  .eq(id, 1)'']"
  let ?M = "[''import a from b;'', ''f();'']"
  have t: "paren_trigger (?L ! 0)" by code_simp
  have e1: "\<not> ends_statement ''  .select(x)''" by code_simp
  have e2: "\<not> ends_statement ''  .eq(id, 1)''" by code_simp
  have h: "\<forall>j. 0 < j \<and> j < 0 + 20 \<and> j < length ?L \<longrightarrow> \<not> ends_statement (?L ! j)"
  proof (intro allI impI)
    fix j :: nat
    assume "0 < j \<and> j < 0 + 20 \<and> j < length ?L"
    then have "j = 1 \<or> j = 2" by auto
    then show "\<not> ends_statement (?L ! j)" using e1 e2 by auto
  qed
  note T = lookahead_rules_fail_closed [where i = 0 and lines = ?L and modified = False
    and d = Map.empty and file_path = "[]" and raw = "[]" and n = 0]
  note T4 = T [THEN conjunct2, THEN conjunct2, THEN conjunct2, THEN conjunct1]
  have c: "paren_step 0 (?L, False) = (?L, False)"
    by (rule mp [OF T4 h])
  have p: "paren_step 0 ([''const r = await (db as any).from(t)'', ''  .select(x)'', ''  .eq(id, 1); ''], False)
       = ([''const r = await (db as any).from(t)'', ''  .select(x)'', ''  .eq(id, 1));''], True)"
    by code_simp
  have i1: "starts_with ''import'' (?M ! 0)" by code_simp
  have i2: "\<not> starts_with ''import'' ''f();''" by code_simp
  have g: "0 < length ?M \<and> starts_with ''import'' (?M ! 0)
        \<and> (\<forall>j. 0 < j \<and> j < length ?M \<longrightarrow> \<not> starts_with ''import'' (?M ! j))"
  proof (intro conjI allI impI)
    show "0 < length ?M" by simp
    show "starts_with ''import'' (?M ! 0)" by (rule i1)
    fix j :: nat
    assume "0 < j \<and> j < length ?M"
    then have "j = 1" by auto
    then show "\<not> starts_with ''import'' (?M ! j)" using i2 by simp
  qed
  note U = lookahead_rules_fail_closed [where i = 0 and lines = ?M and modified = False
    and d = Map.empty and file_path = "[]" and raw = "[]" and n = 0]
  note U11 = U [THEN conjunct2, THEN conjunct2, THEN conjunct2, THEN conjunct2, THEN conjunct2,
    THEN conjunct2, THEN conjunct2, THEN conjunct2, THEN conjunct2, THEN conjunct2, THEN conjunct2]
  note U13 = U11 [THEN conjunct2, THEN conjunct1]
  have "last_import (- 1) 0 ?M = int 0"
    by (rule mp [OF U13 g])
  then have l1: "last_import (- 1) 0 ?M = 0" by simp
  have n: "\<forall>l \<in> set [''f();'']. \<not> starts_with ''import'' l" using i2 by simp
  note V = lookahead_rules_fail_closed [where i = 0 and lines = "[''f();'']" and modified = False
    and d = Map.empty and file_path = "[]" and raw = "[]" and n = 0]
  note V12 = V [THEN conjunct2, THEN conjunct2, THEN conjunct2, THEN conjunct2, THEN conjunct2,
    THEN conjunct2, THEN conjunct2, THEN conjunct2, THEN conjunct2, THEN conjunct2, THEN conjunct2,
    THEN conjunct1]
  have l2: "last_import (- 1) 0 [''f();''] = - 1"
    by (rule mp [OF V12 n])
  show ?thesis using t e1 e2 c p i1 i2 l1 l2 by blast
qed

text \<open>
  The scan of \<open>fix-logger-imports.py\<close> is not confined to 20 lines: in a file whose
  only \<open>import\<close> is on line 26 the marker is found at index 25 and the file is
  edited after it, while the same file without that line is left alone.
\<close>

theorem logger_import_scan_unbounded:
  "file_lines (concat (replicate 25 (''x;'' @ [LF])) @ ''import a;'')
     = replicate 25 ''x;'' @ [''import a;'']
   \<and> last_import (- 1) 0 (replicate 25 ''x;'' @ [''import a;'']) = 25
   \<and> logger_imports_file
         [''c.tsx'' \<mapsto> concat (replicate 25 (''x;'' @ [LF])) @ ''import a;'']
         ''c.tsx''
       = [''c.tsx'' \<mapsto> (concat (replicate 25 (''x;'' @ [LF])) @ ''import a;'')
                           @ [LF] @ logger_import]
   \<and> logger_imports_file
         [''c.tsx'' \<mapsto> concat (replicate 25 (''x;'' @ [LF])) @ ''y;'']
         ''c.tsx''
       = [''c.tsx'' \<mapsto> concat (replicate 25 (''x;'' @ [LF])) @ ''y;'']"
proof -
  let ?raw = "concat (replicate 25 (''x;'' @ [LF])) @ ''import a;''"
  let ?raw2 = "concat (replicate 25 (''x;'' @ [LF])) @ ''y;''"
  have fl: "file_lines ?raw = replicate 25 ''x;'' @ [''import a;'']"
    by code_simp
  have li: "last_import (- 1) 0 (replicate 25 ''x;'' @ [''import a;'']) = 25"
    by code_simp
  have l: "[''c.tsx'' \<mapsto> ?raw] ''c.tsx'' = Some ?raw" by simp
  have r: "read_text ?raw = ?raw" by code_simp
  have c1: "contains ''import.*logger'' ?raw = False" by code_simp
  have c2: "contains ''from.*logger'' ?raw = False" by code_simp
  have idx: "last_import (- 1) 0 (str_split LF ?raw) = 25" by code_simp
  have ins: "str_join LF (list_insert (25 + 1) logger_import (str_split LF ?raw))
               = ?raw @ [LF] @ logger_import"
    by code_simp
  have w: "logger_imports_file [''c.tsx'' \<mapsto> ?raw] ''c.tsx''
             = [''c.tsx'' \<mapsto> ?raw @ [LF] @ logger_import]"
    unfolding logger_imports_file_def l option.case Let_def r c1 c2 idx ins write_text_def
    by simp
  have l': "[''c.tsx'' \<mapsto> ?raw2] ''c.tsx'' = Some ?raw2" by simp
  have r': "read_text ?raw2 = ?raw2" by code_simp
  have c1': "contains ''import.*logger'' ?raw2 = False" by code_simp
  have c2': "contains ''from.*logger'' ?raw2 = False" by code_simp
  have idx': "last_import (- 1) 0 (str_split LF ?raw2) = - 1" by code_simp
  have w': "logger_imports_file [''c.tsx'' \<mapsto> ?raw2] ''c.tsx'' = [''c.tsx'' \<mapsto> ?raw2]"
    unfolding logger_imports_file_def l' option.case Let_def r' c1' c2' idx'
    by simp
  show ?thesis using fl li w w' by blast
qed

section \<open>The claims about the property-access substitution\<close>

text \<open>
  C1. For the property \<open>name\<close>, the line \<open>  console.log(user.name);\<close> becomes
  \<open>  console.log((user as any).name);\<close>, which differs from it (the change is
  reported), and the transform applied to the new line returns it unchanged (no
  change is reported). The same holds through the loop of
  \<open>fix-all-property-access.py\<close> on a file whose line 10 is that line, and for the
  transform of \<open>fix-ts-property-access.py\<close>.
\<close>

theorem property_access_example:
  "escape_line ''name'' ''  console.log(user.name);'' = ''  console.log((user as any).name);''
   \<and> ''  console.log((user as any).name);'' \<noteq> ''  console.log(user.name);''
   \<and> escape_line ''name'' ''  console.log((user as any).name);''
       = ''  console.log((user as any).name);''
   \<and> property_access_apply (replicate 9 ''// x'' @ [''  console.log(user.name);''], False)
         [(10, ''name'')]
       = (replicate 9 ''// x'' @ [''  console.log((user as any).name);''], True)
   \<and> property_access_apply (replicate 9 ''// x'' @ [''  console.log((user as any).name);''], False)
         [(10, ''name'')]
       = (replicate 9 ''// x'' @ [''  console.log((user as any).name);''], False)
   \<and> ts_property_access_line ''name'' ''  console.log(user.name);''
       = ''  console.log((user as any).name);''
   \<and> ts_property_access_line ''name'' ''  console.log((user as any).name);''
       = ''  console.log((user as any).name);''"
  by code_simp

subsection \<open>Scanning the output of the substitution again\<close>

lemma ident_start_ident_char: "is_ident_start c \<Longrightarrow> is_ident_char c"
  unfolding is_ident_start_def is_ident_char_def Let_def by blast

lemma ident_char_word: "is_ident_char c \<Longrightarrow> is_word c"
  unfolding is_ident_char_def is_word_def Let_def by blast

lemma word_not_space: "is_word c \<Longrightarrow> \<not> is_space c"
  unfolding is_word_def is_space_def Let_def by linarith

lemma word_not_dot: "is_word c \<Longrightarrow> c \<noteq> CHR ''.''"
  by (auto simp: is_word_def)

lemma re_sub_access_Nil: "re_sub_access prop prev [] = []"
  by (subst re_sub_access.simps) simp

lemma re_sub_access_copy:
  "match_access prop prev (c # cs) = None \<Longrightarrow>
   re_sub_access prop prev (c # cs) = c # re_sub_access prop (Some c) cs"
  by (subst re_sub_access.simps) simp

lemma re_sub_access_match:
  "match_access prop prev (c # cs) = Some (ident, back, rest) \<Longrightarrow>
   re_sub_access prop prev (c # cs)
     = ''('' @ ident @ '' as any).'' @ prop @ re_sub_access prop back rest"
  by (subst re_sub_access.simps) simp

lemma match_access_not_start:
  "\<not> is_ident_start c \<Longrightarrow> match_access prop prev (c # cs) = None"
  by (simp add: match_access_def)

lemma match_access_inside:
  "word_at prev \<Longrightarrow> is_word c \<Longrightarrow> match_access prop prev (c # cs) = None"
  by (simp add: match_access_def boundary_def)

lemma match_access_Some:
  assumes "match_access prop prev (c # cs) = Some (ident, back, rest)"
  shows "is_ident_start c" "ident = c # takeWhile is_ident_char cs"
    "access_tail prop (dropWhile is_ident_char cs) = Some (back, rest)"
  using assms by (auto simp: match_access_def split: if_splits option.splits)

lemma access_tail_Some:
  assumes "prop \<noteq> []" "list_all is_word prop" "access_tail prop s = Some (back, rest)"
  shows "back = Some (last prop)" "\<not> word_at (next_char rest)"
proof -
  from assms(3) obtain d ds where d: "dropWhile is_space s = d # ds"
    by (cases "dropWhile is_space s") (auto simp: access_tail_def)
  from assms(3) d assms(1) show b: "back = Some (last prop)"
    by (auto simp: access_tail_def Let_def split: if_splits)
  from assms(3) d assms(1) have "boundary (Some (last prop)) (next_char rest)"
    by (auto simp: access_tail_def Let_def split: if_splits)
  moreover have "is_word (last prop)" using assms(1,2) by (simp add: list_all_iff)
  ultimately show "\<not> word_at (next_char rest)" by (simp add: boundary_def)
qed


lemma re_sub_access_copy_run:
  assumes "\<And>c. c \<in> set w \<Longrightarrow> \<not> is_ident_start c"
  shows "re_sub_access prop prev (w @ r)
           = w @ re_sub_access prop (if w = [] then prev else Some (last w)) r"
  using assms
proof (induction w arbitrary: prev)
  case Nil
  then show ?case by simp
next
  case (Cons c w)
  have "match_access prop prev (c # w @ r) = None"
    using Cons.prems by (simp add: match_access_not_start)
  then have "re_sub_access prop prev ((c # w) @ r) = c # re_sub_access prop (Some c) (w @ r)"
    by (simp add: re_sub_access_copy)
  also have "re_sub_access prop (Some c) (w @ r)
      = w @ re_sub_access prop (if w = [] then Some c else Some (last w)) r"
    using Cons.IH [of "Some c"] Cons.prems by simp
  finally show ?case by simp
qed

lemma re_sub_access_copy_word:
  assumes "word_at prev" "list_all is_word w"
  shows "re_sub_access prop prev (w @ r)
           = w @ re_sub_access prop (if w = [] then prev else Some (last w)) r"
  using assms
proof (induction w arbitrary: prev)
  case Nil
  then show ?case by simp
next
  case (Cons c w)
  have "match_access prop prev (c # w @ r) = None"
    using Cons.prems by (simp add: match_access_inside)
  then have "re_sub_access prop prev ((c # w) @ r) = c # re_sub_access prop (Some c) (w @ r)"
    by (simp add: re_sub_access_copy)
  also have "re_sub_access prop (Some c) (w @ r)
      = w @ re_sub_access prop (if w = [] then Some c else Some (last w)) r"
    using Cons.IH [of "Some c"] Cons.prems by simp
  finally show ?case by simp
qed

lemma re_sub_access_head:
  "re_sub_access prop prev (c # cs) = c # re_sub_access prop (Some c) cs
   \<or> (\<exists>t. re_sub_access prop prev (c # cs) = CHR ''('' # t)"
proof (cases "match_access prop prev (c # cs)")
  case None
  then show ?thesis by (simp add: re_sub_access_copy)
next
  case (Some m)
  obtain ident bk rest where "m = (ident, bk, rest)" by (cases m)
  then show ?thesis using Some re_sub_access_match [of "prop" prev c cs ident bk rest] by simp
qed

lemma next_char_re_sub_access:
  "\<not> word_at (next_char s) \<Longrightarrow> next_char (re_sub_access prop prev s) = next_char s"
proof (cases s)
  case Nil
  then show ?thesis by (simp add: re_sub_access_Nil)
next
  case (Cons c cs)
  assume "\<not> word_at (next_char s)"
  then have "\<not> is_ident_start c"
    using Cons ident_start_ident_char ident_char_word by (auto simp: next_char_def)
  then show ?thesis using Cons
    by (simp add: match_access_not_start re_sub_access_copy next_char_def)
qed

text \<open>Cutting the output where a run of characters of a class ends.\<close>

lemma split_output_run:
  assumes paren: "\<not> Q CHR ''(''"
    and copy: "re_sub_access prop prev (takeWhile Q s @ dropWhile Q s)
                 = takeWhile Q s @ re_sub_access prop q (dropWhile Q s)"
  shows "takeWhile Q (re_sub_access prop prev s) = takeWhile Q s"
    and "dropWhile Q (re_sub_access prop prev s) = re_sub_access prop q (dropWhile Q s)"
proof -
  let ?u = "takeWhile Q s" and ?r = "dropWhile Q s"
  let ?y = "re_sub_access prop q ?r"
  have y: "?y = [] \<or> \<not> Q (hd ?y)"
  proof (cases ?r)
    case Nil
    then show ?thesis by (simp only: re_sub_access_Nil simp_thms)
  next
    case (Cons c cs)
    then have "\<not> Q c" using hd_dropWhile [of Q s] by (metis list.sel(1) list.distinct(1))
    then show ?thesis using Cons re_sub_access_head [of "prop" q c cs] paren by auto
  qed
  have out: "re_sub_access prop prev s = ?u @ ?y" using copy by simp
  have u: "\<forall>x \<in> set ?u. Q x" by (auto dest: set_takeWhileD)
  show "takeWhile Q (re_sub_access prop prev s) = ?u"
    using y u unfolding out by (cases ?y) (simp_all add: takeWhile_tail)
  show "dropWhile Q (re_sub_access prop prev s) = ?y"
    using y u unfolding out by (cases ?y) (simp_all add: dropWhile_append3)
qed


lemma space_not_ident_start: "is_space c \<Longrightarrow> \<not> is_ident_start c"
  using ident_start_ident_char ident_char_word word_not_space by blast

lemma output_spaces:
  "dropWhile is_space (re_sub_access prop prev s)
     = re_sub_access prop
         (if takeWhile is_space s = [] then prev else Some (last (takeWhile is_space s)))
         (dropWhile is_space s)"
proof (rule split_output_run(2))
  show "\<not> is_space CHR ''(''" by (simp add: is_space_def)
  show "re_sub_access prop prev (takeWhile is_space s @ dropWhile is_space s)
      = takeWhile is_space s @ re_sub_access prop
          (if takeWhile is_space s = [] then prev else Some (last (takeWhile is_space s)))
          (dropWhile is_space s)"
    by (rule re_sub_access_copy_run) (auto dest: set_takeWhileD space_not_ident_start)
qed

lemma output_ident_run:
  assumes "word_at prev"
  shows "takeWhile is_ident_char (re_sub_access prop prev s) = takeWhile is_ident_char s"
    and "dropWhile is_ident_char (re_sub_access prop prev s)
           = re_sub_access prop
               (if takeWhile is_ident_char s = [] then prev
                else Some (last (takeWhile is_ident_char s)))
               (dropWhile is_ident_char s)"
proof -
  have p: "\<not> is_ident_char CHR ''(''" by (simp add: is_ident_char_def)
  have c: "re_sub_access prop prev (takeWhile is_ident_char s @ dropWhile is_ident_char s)
      = takeWhile is_ident_char s @ re_sub_access prop
          (if takeWhile is_ident_char s = [] then prev
           else Some (last (takeWhile is_ident_char s)))
          (dropWhile is_ident_char s)"
    by (rule re_sub_access_copy_word [OF assms])
       (auto simp: list_all_iff dest: set_takeWhileD ident_char_word)
  show "takeWhile is_ident_char (re_sub_access prop prev s) = takeWhile is_ident_char s"
    by (rule split_output_run(1) [OF p c])
  show "dropWhile is_ident_char (re_sub_access prop prev s)
           = re_sub_access prop
               (if takeWhile is_ident_char s = [] then prev
                else Some (last (takeWhile is_ident_char s)))
               (dropWhile is_ident_char s)"
    by (rule split_output_run(2) [OF p c])
qed

lemma word_run_is_name:
  assumes p: "p \<noteq> []" "list_all is_word p"
    and w: "list_all is_word w" and y: "\<not> word_at (next_char y)"
    and sw: "starts_with p (w @ y)"
    and after: "\<not> word_at (next_char (drop (length p) (w @ y)))"
  shows "p = w"
proof -
  have le: "length p \<le> length w"
    by (rule starts_with_append_word [OF p(2) w y sw])
  have "\<not> length p < length w"
  proof
    assume lt: "length p < length w"
    then have "next_char (drop (length p) (w @ y)) = Some (w ! length p)"
      by (simp add: next_char_def drop_Cons' Cons_nth_drop_Suc [symmetric] split: list.splits)
    moreover have "is_word (w ! length p)" using w lt by (simp add: list_all_length)
    ultimately show False using after by simp
  qed
  then have "length p = length w" using le by simp
  then show ?thesis using sw by (simp add: starts_with_def)
qed

lemma name_in_output:
  assumes p: "p \<noteq> []" "list_all is_word p"
    and q: "\<not> word_at q"
    and sw: "starts_with p (re_sub_access p q r)"
    and after: "\<not> word_at (next_char (drop (length p) (re_sub_access p q r)))"
  shows "starts_with p r \<and> \<not> word_at (next_char (drop (length p) r))"
proof -
  have "r \<noteq> []" using sw p(1) by (auto simp: re_sub_access_Nil starts_with_def)
  then obtain c cs where r: "r = c # cs" by (cases r) auto
  obtain p0 ps where pp: "p = p0 # ps" using p(1) by (cases p) auto
  have p0: "is_word p0" using p(2) pp by simp
  have hd: "hd (re_sub_access p q r) = p0"
    using sw pp by (cases "re_sub_access p q r") (auto simp: starts_with_def)
  have "\<not> is_word CHR ''(''" by (simp add: is_word_def)
  then have copy: "re_sub_access p q r = c # re_sub_access p (Some c) cs"
    using re_sub_access_head [of p q c cs] hd p0 r by auto
  then have c: "c = p0" using hd by simp
  let ?u = "takeWhile is_word cs" and ?v = "dropWhile is_word cs"
  let ?q = "if ?u = [] then Some c else Some (last ?u)"
  have v: "\<not> word_at (next_char ?v)" by (rule next_char_dropWhile)
  have "re_sub_access p (Some c) (?u @ ?v) = ?u @ re_sub_access p ?q ?v"
    using c p0 by (intro re_sub_access_copy_word) (auto simp: list_all_iff dest: set_takeWhileD)
  then have out: "re_sub_access p q r = (c # ?u) @ re_sub_access p ?q ?v"
    using copy by simp
  have y: "\<not> word_at (next_char (re_sub_access p ?q ?v))"
    using v by (simp add: next_char_re_sub_access)
  have w: "list_all is_word (c # ?u)"
    using c p0 by (auto simp: list_all_iff dest: set_takeWhileD)
  have "p = c # ?u"
    by (rule word_run_is_name [OF p w y]) (use sw after out in simp_all)
  then have "r = p @ ?v" using r by simp
  then show ?thesis using v by (simp add: starts_with_def)
qed


lemma access_tail_output:
  assumes p: "p \<noteq> []" "list_all is_word p"
    and out: "access_tail p (re_sub_access p q r) \<noteq> None"
  shows "access_tail p r \<noteq> None"
proof -
  let ?r1 = "dropWhile is_space r"
  let ?q1 = "if takeWhile is_space r = [] then q else Some (last (takeWhile is_space r))"
  obtain d ds where d: "dropWhile is_space (re_sub_access p q r) = d # ds"
    using out by (cases "dropWhile is_space (re_sub_access p q r)") (auto simp: access_tail_def)
  then have dot: "d = CHR ''.''" using out by (auto simp: access_tail_def split: if_splits)
  have o1: "re_sub_access p ?q1 ?r1 = CHR ''.'' # ds"
    using d dot output_spaces [of p q r] by simp
  have "?r1 \<noteq> []"
  proof
    assume e: "?r1 = []"
    show False using o1 unfolding e by (simp add: re_sub_access_Nil)
  qed
  then obtain c cs where r1: "?r1 = c # cs" by (cases ?r1) auto
  have c: "c = CHR ''.''" and ds: "ds = re_sub_access p (Some c) cs"
    using re_sub_access_head [of p ?q1 c cs] o1 r1 by auto
  let ?r2 = "dropWhile is_space cs"
  let ?q2 = "if takeWhile is_space cs = [] then Some c else Some (last (takeWhile is_space cs))"
  have o2: "dropWhile is_space ds = re_sub_access p ?q2 ?r2"
    unfolding ds by (rule output_spaces)
  have q2: "\<not> word_at ?q2"
  proof (cases "takeWhile is_space cs = []")
    case True
    then show ?thesis using c by (simp add: is_word_def)
  next
    case False
    then have "last (takeWhile is_space cs) \<in> set (takeWhile is_space cs)" by simp
    then have "is_space (last (takeWhile is_space cs))" by (rule set_takeWhileD [THEN conjunct2])
    then show ?thesis using False word_not_space by auto
  qed
  have lp: "is_word (last p)" using p by (simp add: list_all_iff)
  from out d dot o2 p(1)
  have sw: "starts_with p (re_sub_access p ?q2 ?r2)"
    and b: "boundary (Some (last p)) (next_char (drop (length p) (re_sub_access p ?q2 ?r2)))"
    by (auto simp: access_tail_def Let_def split: if_splits)
  from b lp have after: "\<not> word_at (next_char (drop (length p) (re_sub_access p ?q2 ?r2)))"
    by (simp add: boundary_def)
  have "starts_with p ?r2 \<and> \<not> word_at (next_char (drop (length p) ?r2))"
    by (rule name_in_output [OF p q2 sw after])
  then show ?thesis using r1 c p(1) lp
    by (simp add: access_tail_def Let_def boundary_def)
qed

lemma match_access_output:
  assumes p: "p \<noteq> []" "list_all is_word p"
    and none: "match_access p prev (c # cs) = None"
  shows "match_access p prev (c # re_sub_access p (Some c) cs) = None"
proof (cases "boundary prev (Some c) \<and> is_ident_start c")
  case False
  then show ?thesis by (auto simp: match_access_def)
next
  case True
  then have w: "word_at (Some c)"
    using ident_start_ident_char ident_char_word by simp
  let ?q = "if takeWhile is_ident_char cs = [] then Some c
            else Some (last (takeWhile is_ident_char cs))"
  have "access_tail p (dropWhile is_ident_char cs) = None"
    using none True by (auto simp: match_access_def split: option.splits)
  then have "access_tail p (re_sub_access p ?q (dropWhile is_ident_char cs)) = None"
    using access_tail_output [OF p] by blast
  then have "access_tail p (dropWhile is_ident_char (re_sub_access p (Some c) cs)) = None"
    using output_ident_run(2) [OF w, of p cs] by simp
  then show ?thesis by (simp add: match_access_def)
qed


lemma ident_run_copied:
  assumes c: "is_ident_start c" and u: "list_all is_ident_char u"
    and tail: "access_tail p r = None"
    and r: "r = [] \<or> \<not> is_ident_char (hd r)"
  shows "re_sub_access p prev ((c # u) @ r)
           = (c # u) @ re_sub_access p (Some (last (c # u))) r"
proof -
  have "dropWhile is_ident_char r = r" using r by (cases r) auto
  then have "dropWhile is_ident_char (u @ r) = r"
    using u by (simp add: dropWhile_append2 list_all_iff)
  then have "match_access p prev (c # u @ r) = None"
    using tail by (simp add: match_access_def)
  then have "re_sub_access p prev ((c # u) @ r) = c # re_sub_access p (Some c) (u @ r)"
    by (simp add: re_sub_access_copy)
  moreover have "re_sub_access p (Some c) (u @ r)
      = u @ re_sub_access p (if u = [] then Some c else Some (last u)) r"
    using c u ident_start_ident_char ident_char_word
    by (intro re_sub_access_copy_word) (auto simp: list_all_iff)
  ultimately show ?thesis by simp
qed

lemma access_tail_word: "is_word h \<Longrightarrow> access_tail p (h # t) = None"
  using word_not_space [of h] word_not_dot [of h] by (simp add: access_tail_def)

lemma name_copied:
  assumes p: "p \<noteq> []" "list_all is_word p"
    and out: "\<not> word_at (next_char out)" and tail: "access_tail p out = None"
  shows "re_sub_access p prev (p @ out) = p @ re_sub_access p (Some (last p)) out"
proof -
  obtain c u where pp: "p = c # u" using p(1) by (cases p) auto
  have cw: "is_word c" and uw: "list_all is_word u" using p(2) pp by simp_all
  have "access_tail p (dropWhile is_ident_char (u @ out)) = None"
  proof (cases "\<forall>x \<in> set u. is_ident_char x")
    case True
    have "dropWhile is_ident_char out = out"
      using out ident_char_word by (cases out) (auto simp: next_char_def)
    then show ?thesis using True tail by (simp add: dropWhile_append2)
  next
    case False
    then obtain x where x: "x \<in> set u" "\<not> is_ident_char x" by blast
    then have d: "dropWhile is_ident_char (u @ out) = dropWhile is_ident_char u @ out"
      by (rule dropWhile_append1)
    have ne: "dropWhile is_ident_char u \<noteq> []" using x by (auto simp: dropWhile_eq_Nil_conv)
    then obtain h t where ht: "dropWhile is_ident_char u = h # t"
      by (cases "dropWhile is_ident_char u") auto
    then have "h \<in> set u" using set_dropWhileD [of h is_ident_char u] by simp
    then have "is_word h" using uw by (simp add: list_all_iff)
    then show ?thesis unfolding d ht by (simp add: access_tail_word)
  qed
  then have "match_access p prev (c # u @ out) = None"
    by (simp add: match_access_def)
  then have "re_sub_access p prev (p @ out) = c # re_sub_access p (Some c) (u @ out)"
    using pp by (simp add: re_sub_access_copy)
  moreover have "re_sub_access p (Some c) (u @ out)
      = u @ re_sub_access p (if u = [] then Some c else Some (last u)) out"
    using cw uw by (intro re_sub_access_copy_word) simp_all
  ultimately show ?thesis using pp by simp
qed

lemma wrapper_copied:
  assumes c: "is_ident_start c" and u: "list_all is_ident_char u"
    and p: "p \<noteq> []" "list_all is_word p"
    and out: "\<not> word_at (next_char out)" and tail: "access_tail p out = None"
  shows "re_sub_access p prev (''('' @ (c # u) @ '' as any).'' @ p @ out)
           = ''('' @ (c # u) @ '' as any).'' @ p @ re_sub_access p (Some (last p)) out"
proof -
  let ?out' = "re_sub_access p (Some (last p)) out"
  have s5: "re_sub_access p q ('').'' @ p @ out) = '').'' @ p @ ?out'" for q
  proof -
    have "re_sub_access p q ('').'' @ (p @ out))
        = '').'' @ re_sub_access p (Some CHR ''.'') (p @ out)"
      by (subst re_sub_access_copy_run) (auto simp: is_ident_start_def)
    then show ?thesis using name_copied [OF p out tail] by simp
  qed
  have s4: "re_sub_access p q (''any'' @ '').'' @ p @ out) = ''any'' @ '').'' @ p @ ?out'" for q
  proof -
    have "re_sub_access p q ((CHR ''a'' # ''ny'') @ ('').'' @ p @ out))
        = (CHR ''a'' # ''ny'') @ re_sub_access p (Some (last (CHR ''a'' # ''ny''))) ('').'' @ p @ out)"
      by (rule ident_run_copied)
         (simp_all add: is_ident_start_def is_ident_char_def access_tail_def is_space_def)
    then show ?thesis using s5 by simp
  qed
  have s3: "re_sub_access p q ('' any).'' @ p @ out) = '' any).'' @ p @ ?out'" for q
  proof -
    have "re_sub_access p q ('' '' @ (''any'' @ '').'' @ p @ out))
        = '' '' @ re_sub_access p (Some CHR '' '') (''any'' @ '').'' @ p @ out)"
      by (subst re_sub_access_copy_run) (auto simp: is_ident_start_def)
    then show ?thesis using s4 by simp
  qed
  have s2: "re_sub_access p q (''as'' @ '' any).'' @ p @ out) = ''as'' @ '' any).'' @ p @ ?out'" for q
  proof -
    have "re_sub_access p q ((CHR ''a'' # ''s'') @ ('' any).'' @ p @ out))
        = (CHR ''a'' # ''s'') @ re_sub_access p (Some (last (CHR ''a'' # ''s''))) ('' any).'' @ p @ out)"
      by (rule ident_run_copied)
         (simp_all add: is_ident_start_def is_ident_char_def access_tail_def is_space_def)
    then show ?thesis using s3 by simp
  qed
  have s1: "re_sub_access p q ('' as any).'' @ p @ out) = '' as any).'' @ p @ ?out'" for q
  proof -
    have "re_sub_access p q ('' '' @ (''as'' @ '' any).'' @ p @ out))
        = '' '' @ re_sub_access p (Some CHR '' '') (''as'' @ '' any).'' @ p @ out)"
      by (subst re_sub_access_copy_run) (auto simp: is_ident_start_def)
    then show ?thesis using s2 by simp
  qed
  have s0: "re_sub_access p q ((c # u) @ '' as any).'' @ p @ out)
              = (c # u) @ '' as any).'' @ p @ ?out'" for q
  proof -
    have "re_sub_access p q ((c # u) @ ('' as any).'' @ p @ out))
        = (c # u) @ re_sub_access p (Some (last (c # u))) ('' as any).'' @ p @ out)"
      by (rule ident_run_copied [OF c u])
         (simp_all add: is_ident_char_def access_tail_def is_space_def)
    then show ?thesis using s1 by simp
  qed
  have "re_sub_access p prev (''('' @ ((c # u) @ '' as any).'' @ p @ out))
      = ''('' @ re_sub_access p (Some CHR ''('') ((c # u) @ '' as any).'' @ p @ out)"
    by (subst re_sub_access_copy_run) (auto simp: is_ident_start_def)
  then show ?thesis using s0 by simp
qed

lemma chained_copy:
  "match_access p prev (c # cs) = None \<Longrightarrow> chained p prev (c # cs) = chained p (Some c) cs"
  by (subst chained.simps) simp

lemma chained_match:
  "match_access p prev (c # cs) = Some (ident, bk, rest) \<Longrightarrow>
   chained p prev (c # cs) = (access_tail p rest \<noteq> None \<or> chained p bk rest)"
  by (subst chained.simps) simp

lemma re_sub_access_idempotent:
  assumes "p \<noteq> []" "list_all is_word p" "\<not> chained p prev s"
  shows "re_sub_access p prev (re_sub_access p prev s) = re_sub_access p prev s"
  using assms
proof (induction p prev s rule: re_sub_access.induct)
  case (1 p prev s)
  note p = "1.prems"(1,2)
  show ?case
  proof (cases s)
    case Nil
    then show ?thesis by (simp add: re_sub_access_Nil)
  next
    case (Cons c cs)
    show ?thesis
    proof (cases "match_access p prev s")
      case None
      let ?out = "re_sub_access p (Some c) cs"
      have nc: "\<not> chained p (Some c) cs"
        using "1.prems"(3) None Cons by (simp add: chained_copy)
      have ih: "re_sub_access p (Some c) ?out = ?out"
        by (rule "1.IH"(1) [OF Cons None p nc])
      have "match_access p prev (c # ?out) = None"
        using match_access_output [OF p] None Cons by simp
      then have "re_sub_access p prev (c # ?out) = c # re_sub_access p (Some c) ?out"
        by (rule re_sub_access_copy)
      then show ?thesis using ih None Cons by (simp add: re_sub_access_copy)
    next
      case (Some m)
      obtain ident bk rest where m: "m = (ident, bk, rest)" by (cases m)
      have ma: "match_access p prev (c # cs) = Some (ident, bk, rest)"
        using Some m Cons by simp
      let ?out = "re_sub_access p bk rest"
      have c: "is_ident_start c" and ident: "ident = c # takeWhile is_ident_char cs"
        and tl: "access_tail p (dropWhile is_ident_char cs) = Some (bk, rest)"
        using match_access_Some [OF ma] by simp_all
      have bk: "bk = Some (last p)" and rest: "\<not> word_at (next_char rest)"
        using access_tail_Some [OF p tl] by simp_all
      have "chained p prev s = (access_tail p rest \<noteq> None \<or> chained p bk rest)"
        unfolding Cons by (rule chained_match [OF ma])
      with "1.prems"(3) have nc: "access_tail p rest = None" "\<not> chained p bk rest"
        by blast+
      have ih: "re_sub_access p bk ?out = ?out"
        by (rule "1.IH"(2) [OF Cons Some m [symmetric] refl p nc(2)])
      have out: "\<not> word_at (next_char ?out)"
        using rest by (simp add: next_char_re_sub_access)
      have tail: "access_tail p ?out = None"
        using access_tail_output [OF p, of bk rest] nc(1) by blast
      have u: "list_all is_ident_char (takeWhile is_ident_char cs)"
        by (auto simp: list_all_iff dest: set_takeWhileD)
      have "re_sub_access p prev (''('' @ ident @ '' as any).'' @ p @ ?out)
          = ''('' @ ident @ '' as any).'' @ p @ re_sub_access p (Some (last p)) ?out"
        unfolding ident by (rule wrapper_copied [OF c u p out tail])
      then show ?thesis
        using ih bk Cons re_sub_access_match [OF ma] by simp
    qed
  qed
qed

text \<open>
  C2. The transform that wraps an access \<open>x.name\<close> as \<open>(x as any).name\<close> is
  idempotent on every line without a chained access, that is, on which no access it
  rewrites is followed at once by a further \<open>.name\<close>: applied to its own output it
  changes nothing, and a wrapped occurrence is not wrapped again. The property name
  is a non-empty string of word characters, as the diagnostic pattern yields it.
\<close>

theorem escape_line_idempotent_unchained:
  assumes "name \<noteq> []" "list_all is_word name" "\<not> chained name None line"
  shows "escape_line name (escape_line name line) = escape_line name line"
  unfolding escape_line_def by (rule re_sub_access_idempotent [OF assms])

theorem escape_line_idempotent_unchained_witness:
  "''name'' \<noteq> [] \<and> list_all is_word ''name''
   \<and> \<not> chained ''name'' None ''if (a.name && b . name) f(a.names, name);''
   \<and> escape_line ''name'' ''if (a.name && b . name) f(a.names, name);''
       = ''if ((a as any).name && (b as any).name) f(a.names, name);''
   \<and> escape_line ''name'' (escape_line ''name'' ''if (a.name && b . name) f(a.names, name);'')
       = escape_line ''name'' ''if (a.name && b . name) f(a.names, name);''"
proof -
  have h1: "''name'' \<noteq> []" by simp
  have h2: "list_all is_word ''name''" by (simp add: is_word_def)
  have h3: "\<not> chained ''name'' None ''if (a.name && b . name) f(a.names, name);''"
    by code_simp
  have v: "escape_line ''name'' ''if (a.name && b . name) f(a.names, name);''
       = ''if ((a as any).name && (b as any).name) f(a.names, name);''"
    by code_simp
  show ?thesis
    using h1 h2 h3 v escape_line_idempotent_unchained [OF h1 h2 h3] by simp
qed

text \<open>
  On a chained access the transform is not idempotent: the first application wraps
  \<open>a.name\<close> and leaves \<open>.name\<close> behind it, and the second application takes the
  first \<open>name\<close> for the accessed variable.
\<close>

theorem escape_line_not_idempotent:
  "escape_line ''name'' ''a.name.name'' = ''(a as any).name.name''
   \<and> escape_line ''name'' (escape_line ''name'' ''a.name.name'') = ''(a as any).(name as any).name''
   \<and> escape_line ''name'' (escape_line ''name'' ''a.name.name'') \<noteq> escape_line ''name'' ''a.name.name''"
  by code_simp

section \<open>The frame claim\<close>

lemma file_lines_clean: "l \<in> set (file_lines raw) \<Longrightarrow> LF \<notin> set l \<and> CR \<notin> set l"
proof -
  assume l: "l \<in> set (file_lines raw)"
  have "CR \<notin> set (read_text raw)" by (simp add: read_text_def universal_newlines_no_CR)
  then show ?thesis
    using l str_split_subset [of l LF "read_text raw"] str_split_sep_free [of l LF "read_text raw"]
    by (auto simp: file_lines_def)
qed

lemma reread_lines:
  assumes ne: "ls \<noteq> []" and clean: "\<forall>l \<in> set ls. LF \<notin> set l \<and> CR \<notin> set l"
  shows "file_lines (write_text (str_join LF ls)) = ls"
proof -
  have "CR \<notin> set (str_join LF ls)"
  proof
    assume "CR \<in> set (str_join LF ls)"
    then show False using clean set_str_join_subset [of LF ls] by fastforce
  qed
  moreover have "str_split LF (str_join LF ls) = ls"
    using clean by (intro str_split_join [OF ne]) simp
  ultimately show ?thesis
    by (simp add: file_lines_def read_text_def write_text_def universal_newlines_id)
qed

lemma frame_kept_refl: "frame_kept reported raw raw"
  by (simp add: frame_kept_def)

lemma match_access_parts:
  assumes "match_access p prev s = Some (ident, bk, rest)"
  shows "set ident \<subseteq> set s" "set rest \<subseteq> set s"
proof -
  obtain c cs where s: "s = c # cs" using assms by (cases s) (auto simp: match_access_def)
  have ident: "ident = c # takeWhile is_ident_char cs"
    and tl: "access_tail p (dropWhile is_ident_char cs) = Some (bk, rest)"
    using match_access_Some [of p prev c cs ident bk rest] assms s by simp_all
  show "set ident \<subseteq> set s" using ident s by (auto dest: set_takeWhileD)
  obtain x xs where x: "dropWhile is_space (dropWhile is_ident_char cs) = x # xs"
    using tl by (cases "dropWhile is_space (dropWhile is_ident_char cs)") (auto simp: access_tail_def)
  then have "rest = drop (length p) (dropWhile is_space xs)"
    using tl by (auto simp: access_tail_def Let_def split: if_splits)
  then have "set rest \<subseteq> set xs"
    using set_drop_subset [of "length p" "dropWhile is_space xs"] set_dropWhileD [of _ is_space xs]
    by blast
  moreover have "set (x # xs) \<subseteq> set cs"
    using set_dropWhileD [of _ is_space "dropWhile is_ident_char cs"]
          set_dropWhileD [of _ is_ident_char cs] unfolding x [symmetric] by blast
  ultimately show "set rest \<subseteq> set s" using s by auto
qed

lemma set_re_sub_access:
  "set (re_sub_access p prev s) \<subseteq> set s \<union> set p \<union> set ''( as any).''"
proof (induction p prev s rule: re_sub_access.induct)
  case (1 p prev s)
  let ?W = "set ''( as any).''"
  show ?case
  proof (cases s)
    case Nil
    have "re_sub_access p prev s = []" unfolding Nil by (rule re_sub_access_Nil)
    then show ?thesis by (simp only: list.set empty_subsetI)
  next
    case (Cons c cs)
    show ?thesis
    proof (cases "match_access p prev s")
      case None
      have ih: "set (re_sub_access p (Some c) cs) \<subseteq> set cs \<union> set p \<union> ?W"
        by (rule "1.IH"(1) [OF Cons None])
      have "re_sub_access p prev s = c # re_sub_access p (Some c) cs"
        using None unfolding Cons by (rule re_sub_access_copy)
      then have "set (re_sub_access p prev s) = insert c (set (re_sub_access p (Some c) cs))"
        by (simp only: list.set)
      moreover have "set s = insert c (set cs)" unfolding Cons by (simp only: list.set)
      ultimately show ?thesis using ih by blast
    next
      case (Some m)
      obtain ident bk rest where m: "m = (ident, bk, rest)" by (cases m)
      have ma: "match_access p prev s = Some (ident, bk, rest)" using Some m by simp
      have ih: "set (re_sub_access p bk rest) \<subseteq> set rest \<union> set p \<union> ?W"
        by (rule "1.IH"(2) [OF Cons Some m [symmetric] refl])
      have parts: "set ident \<subseteq> set s" "set rest \<subseteq> set s"
        using match_access_parts [OF ma] by blast+
      have w: "set ''('' \<subseteq> ?W" "set '' as any).'' \<subseteq> ?W" by simp_all
      have "re_sub_access p prev s
          = ''('' @ ident @ '' as any).'' @ p @ re_sub_access p bk rest"
        using ma unfolding Cons by (rule re_sub_access_match)
      then have "set (re_sub_access p prev s)
          = set ''('' \<union> set ident \<union> set '' as any).'' \<union> set p \<union> set (re_sub_access p bk rest)"
        by (simp only: set_append Un_assoc)
      then show ?thesis using ih parts w by blast
    qed
  qed
qed

lemma escape_line_clean:
  assumes "list_all is_word p" "x = LF \<or> x = CR" "x \<notin> set l"
  shows "x \<notin> set (escape_line p l)"
proof
  assume x: "x \<in> set (escape_line p l)"
  have "set (escape_line p l) \<subseteq> set l \<union> set p \<union> set ''( as any).''"
    unfolding escape_line_def by (rule set_re_sub_access)
  then have "x \<in> set l \<union> set p \<union> set ''( as any).''" using x by blast
  moreover have "x \<notin> set p" using assms(1,2) not_word_newline by (auto simp: list_all_iff)
  moreover have "LF \<notin> set ''( as any).''" "CR \<notin> set ''( as any).''" by simp_all
  then have "x \<notin> set ''( as any).''" using assms(2) by blast
  ultimately show False using assms(3) by blast
qed


lemma property_access_apply_invariant:
  assumes "P lines"
    and step: "\<And>ls n p. P ls \<Longrightarrow> (n, p) \<in> set errors \<Longrightarrow> 0 \<le> n - 1 \<Longrightarrow>
                 n - 1 < int (length ls) \<Longrightarrow>
                 P (ls[nat (n - 1) := escape_line p (ls ! nat (n - 1))])"
  shows "P (fst (property_access_apply (lines, modified) errors))"
  using assms
proof (induction errors arbitrary: lines modified)
  case Nil
  then show ?case by simp
next
  case (Cons e errors)
  obtain n p where e: "e = (n, p)" by (cases e)
  have step': "\<And>ls n p. P ls \<Longrightarrow> (n, p) \<in> set errors \<Longrightarrow> 0 \<le> n - 1 \<Longrightarrow>
                 n - 1 < int (length ls) \<Longrightarrow>
                 P (ls[nat (n - 1) := escape_line p (ls ! nat (n - 1))])"
    using Cons.prems(2) by simp
  let ?new = "escape_line p (lines ! nat (n - 1))"
  show ?case
  proof (cases "0 \<le> n - 1 \<and> n - 1 < int (length lines) \<and> ?new \<noteq> lines ! nat (n - 1)")
    case True
    then have eq: "property_access_apply (lines, modified) (e # errors)
        = property_access_apply (lines[nat (n - 1) := ?new], True) errors"
      unfolding e by (simp add: Let_def)
    have "P (lines[nat (n - 1) := ?new])"
      using Cons.prems(1) True by (intro Cons.prems(2)) (simp_all add: e)
    then show ?thesis unfolding eq by (rule Cons.IH [OF _ step'])
  next
    case False
    then have eq: "property_access_apply (lines, modified) (e # errors)
        = property_access_apply (lines, modified) errors"
      unfolding e by (auto simp: Let_def)
    show ?thesis unfolding eq by (rule Cons.IH [OF Cons.prems(1) step'])
  qed
qed

lemma property_access_frame:
  assumes f: "d file_path = Some raw"
    and props: "\<forall>(n, p) \<in> set errors. list_all is_word p"
  shows "\<exists>raw'. fst (property_access_file d (file_path, errors)) file_path = Some raw'
           \<and> frame_kept (map fst errors) raw raw'"
proof -
  let ?lines = "file_lines raw"
  obtain ls modified where r: "property_access_apply (?lines, False) errors = (ls, modified)"
    by (cases "property_access_apply (?lines, False) errors")
  show ?thesis
  proof (cases modified)
    case False
    then have "fst (property_access_file d (file_path, errors)) file_path = Some raw"
      using f r by (simp add: property_access_file_def file_lines_def)
    then show ?thesis using frame_kept_refl by blast
  next
    case True
    have len: "length ls = length ?lines"
      using property_access_apply_invariant
              [of "\<lambda>l. length l = length ?lines" ?lines errors False] r
      by simp
    have frame: "ls ! i = ?lines ! i" if "int i + 1 \<notin> set (map fst errors)" for i
    proof -
      have "fst (property_access_apply (?lines, False) errors) ! i = ?lines ! i"
      proof (rule property_access_apply_invariant [of "\<lambda>l. l ! i = ?lines ! i"])
        show "?lines ! i = ?lines ! i" by simp
      next
        fix l n p
        assume a: "l ! i = ?lines ! i" "(n, p) \<in> set errors" "0 \<le> n - 1"
        then have "n \<noteq> int i + 1" using that by force
        then have "nat (n - 1) \<noteq> i" using a(3) by linarith
        then show "l[nat (n - 1) := escape_line p (l ! nat (n - 1))] ! i = ?lines ! i"
          using a(1) by simp
      qed
      then show ?thesis using r by simp
    qed
    have clean: "\<forall>l \<in> set ls. x \<notin> set l" if x: "x = LF \<or> x = CR" for x
    proof -
      have "\<forall>l \<in> set (fst (property_access_apply (?lines, False) errors)). x \<notin> set l"
      proof (rule property_access_apply_invariant [of "\<lambda>ls. \<forall>l \<in> set ls. x \<notin> set l"])
        show "\<forall>l \<in> set ?lines. x \<notin> set l" using x file_lines_clean by blast
      next
        fix l n p
        assume a: "\<forall>k \<in> set l. x \<notin> set k" "(n, p) \<in> set errors" "0 \<le> n - 1"
          "n - 1 < int (length l)"
        have "nat (n - 1) < length l" using a(3,4) by linarith
        then have "x \<notin> set (l ! nat (n - 1))" using a(1) nth_mem by blast
        moreover have "list_all is_word p" using props a(2) by auto
        ultimately have "x \<notin> set (escape_line p (l ! nat (n - 1)))"
          using x by (intro escape_line_clean)
        then show "\<forall>k \<in> set (l[nat (n - 1) := escape_line p (l ! nat (n - 1))]). x \<notin> set k"
          using a(1) set_update_subset_insert [of l "nat (n - 1)"] by blast
      qed
      then show ?thesis using r by simp
    qed
    have ne: "ls \<noteq> []"
      using len str_split_not_Nil [of LF "read_text raw"] by (auto simp: file_lines_def)
    have "file_lines (write_text (str_join LF ls)) = ls"
      using clean by (intro reread_lines [OF ne]) blast
    then have "frame_kept (map fst errors) raw (write_text (str_join LF ls))"
      using len frame by (simp add: frame_kept_def)
    moreover have "fst (property_access_file d (file_path, errors)) file_path
        = Some (write_text (str_join LF ls))"
      using f r True by (simp add: property_access_file_def file_lines_def)
    ultimately show ?thesis by blast
  qed
qed


lemma ts_errors_file_frame:
  assumes f: "d file_path = Some raw"
    and new: "\<forall>(n, old_var, new_var) \<in> set issues. list_all is_word new_var"
  shows "\<exists>raw'. fst (ts_errors_file d (file_path, issues)) file_path = Some raw'
           \<and> frame_kept (map fst issues) raw raw'"
proof -
  obtain raw' where r: "fst (ts_errors_file d (file_path, issues)) file_path = Some raw'"
    "length (file_lines raw') = length (file_lines raw)"
    "\<forall>i < length (file_lines raw).
        (\<forall>(n, old_var, new_var) \<in> set issues. n \<noteq> int i + 1)
          \<longrightarrow> file_lines raw' ! i = file_lines raw ! i"
    using ts_errors_frame [where d = d and file_path = file_path and raw = raw
                             and issues = issues, OF f new]
    by blast
  have "file_lines raw' ! i = file_lines raw ! i"
    if "i < length (file_lines raw)" "int i + 1 \<notin> set (map fst issues)" for i
  proof -
    have "\<forall>(n, old_var, new_var) \<in> set issues. n \<noteq> int i + 1"
      using that(2) by force
    then show ?thesis using r(3) that(1) by blast
  qed
  then have "frame_kept (map fst issues) raw raw'"
    using r(2) by (simp add: frame_kept_def)
  then show ?thesis using r(1) by blast
qed

text \<open>
  C9. Frame property of the single-line fixers on one file, for
  \<open>fix-ts-errors.py\<close> and for \<open>fix-all-property-access.py\<close>: after the file has
  been handled it has as many lines as before, and every line whose 1-based number is
  not the line number of one of the file's diagnostics has the text it had before.
  The lines are those the script itself sees when it loads a file; the new names and
  the property names are word characters, as the groups \<open>(_\w+)\<close> and \<open>(\w+)\<close> of
  the diagnostic patterns yield them.
\<close>

theorem single_line_frame:
  assumes "d file_path = Some raw"
  shows "((\<forall>(n, old_var, new_var) \<in> set issues. list_all is_word new_var) \<longrightarrow>
            (\<exists>raw'. fst (ts_errors_file d (file_path, issues)) file_path = Some raw'
                    \<and> frame_kept (map fst issues) raw raw'))
         \<and> ((\<forall>(n, name) \<in> set errors. list_all is_word name) \<longrightarrow>
            (\<exists>raw'. fst (property_access_file d (file_path, errors)) file_path = Some raw'
                    \<and> frame_kept (map fst errors) raw raw'))"
  using ts_errors_file_frame [where d = d and file_path = file_path and raw = raw
                                and issues = issues, OF assms]
    property_access_frame [where d = d and file_path = file_path and raw = raw
                             and errors = errors, OF assms]
  by blast

theorem single_line_frame_witness:
  "[''a.ts'' \<mapsto> ''let a = err;'' @ [CR, LF] @ ''log(err.code);''] ''a.ts''
       = Some (''let a = err;'' @ [CR, LF] @ ''log(err.code);'')
   \<and> list_all is_word ''_err'' \<and> list_all is_word ''code''
   \<and> file_lines (''let a = err;'' @ [CR, LF] @ ''log(err.code);'')
       = [''let a = err;'', ''log(err.code);'']
   \<and> fst (ts_errors_file [''a.ts'' \<mapsto> ''let a = err;'' @ [CR, LF] @ ''log(err.code);'']
             (''a.ts'', [(2, ''err'', ''_err'')])) ''a.ts''
       = Some (''let a = err;'' @ [LF] @ ''log(_err.code);'')
   \<and> frame_kept [2] (''let a = err;'' @ [CR, LF] @ ''log(err.code);'')
         (''let a = err;'' @ [LF] @ ''log(_err.code);'')
   \<and> fst (property_access_file [''a.ts'' \<mapsto> ''let a = err;'' @ [CR, LF] @ ''log(err.code);'']
             (''a.ts'', [(2, ''code'')])) ''a.ts''
       = Some (''let a = err;'' @ [LF] @ ''log((err as any).code);'')
   \<and> frame_kept [2] (''let a = err;'' @ [CR, LF] @ ''log(err.code);'')
         (''let a = err;'' @ [LF] @ ''log((err as any).code);'')"
proof -
  let ?raw = "''let a = err;'' @ [CR, LF] @ ''log(err.code);''"
  let ?d = "[''a.ts'' \<mapsto> ?raw]"
  let ?issues = "[(2, ''err'', ''_err'')] :: rename list"
  let ?errors = "[(2, ''code'')] :: (int \<times> string) list"
  have h1: "?d ''a.ts'' = Some ?raw" by simp
  have h2: "\<forall>(n, old_var, new_var) \<in> set ?issues. list_all is_word new_var"
    by (simp add: is_word_def)
  have h3: "\<forall>(n, name) \<in> set ?errors. list_all is_word name"
    by (simp add: is_word_def)
  have r: "read_text ?raw = ''let a = err;'' @ [LF] @ ''log(err.code);''"
    by code_simp
  have n: "ts_errors_new_content (''let a = err;'' @ [LF] @ ''log(err.code);'') ?issues
             = ''let a = err;'' @ [LF] @ ''log(_err.code);''"
    by code_simp
  have w1: "fst (ts_errors_file ?d (''a.ts'', ?issues)) ''a.ts''
             = Some (''let a = err;'' @ [LF] @ ''log(_err.code);'')"
    unfolding ts_errors_file_def prod.case h1 option.case r Let_def n write_text_def
    by simp
  have a: "property_access_apply
             (str_split LF (''let a = err;'' @ [LF] @ ''log(err.code);''), False) ?errors
           = ([''let a = err;'', ''log((err as any).code);''], True)"
    by code_simp
  have j: "str_join LF [''let a = err;'', ''log((err as any).code);'']
           = ''let a = err;'' @ [LF] @ ''log((err as any).code);''"
    by code_simp
  have w2: "fst (property_access_file ?d (''a.ts'', ?errors)) ''a.ts''
             = Some (''let a = err;'' @ [LF] @ ''log((err as any).code);'')"
    unfolding property_access_file_def prod.case h1 option.case r a if_True j write_text_def
    by simp
  have l: "file_lines ?raw = [''let a = err;'', ''log(err.code);'']" by code_simp
  have k1: "frame_kept [2] ?raw (''let a = err;'' @ [LF] @ ''log(_err.code);'')"
    using single_line_frame [where d = ?d and file_path = "''a.ts''" and raw = ?raw
                               and issues = ?issues and errors = ?errors, OF h1] h2 w1
    by auto
  have k2: "frame_kept [2] ?raw (''let a = err;'' @ [LF] @ ''log((err as any).code);'')"
    using single_line_frame [where d = ?d and file_path = "''a.ts''" and raw = ?raw
                               and issues = ?issues and errors = ?errors, OF h1] h3 w2
    by auto
  show ?thesis using h1 l w1 w2 k1 k2 by (simp add: is_word_def)
qed

end
